theory Spec2Isabelle
  imports Complex_Main "HOL-Library.Multiset"
begin

section \<open>Temporal segmenter\<close>

text \<open>
  \<^verbatim>\<open>find_abnormal_segments(timestamps, gap)\<close> occurs with the same body in
  \<^verbatim>\<open>fyp.py\<close> and \<^verbatim>\<open>main.py\<close>.  Timestamps are Python floats; the function only
  compares them and evaluates \<^verbatim>\<open>t - e <= gap\<close>.  The model is therefore polymorphic in
  any linearly ordered type with a subtraction: nothing is assumed about \<open>-\<close>, so the
  rounded subtraction of finite doubles is an instance, as are \<open>rat\<close> and \<open>real\<close>.

  The body of the \<^verbatim>\<open>for\<close> loop acts on the triple \<^verbatim>\<open>(segs, s, e)\<close>.
\<close>

fun segment_step :: "'a::{linorder,minus} \<Rightarrow> ('a \<times> 'a) list \<times> 'a \<times> 'a \<Rightarrow> 'a
    \<Rightarrow> ('a \<times> 'a) list \<times> 'a \<times> 'a" where
  "segment_step gap (segs, s, e) t =
     (if t - e \<le> gap then (segs, s, t) else (segs @ [(s, e)], t, t))"

text \<open>
  The call sorts the caller's list object in place (\<^verbatim>\<open>timestamps.sort()\<close>), so the model
  returns a pair: the contents of the argument list after the call, and the returned
  segment list.  \<^verbatim>\<open>timestamps[0]\<close> and \<^verbatim>\<open>timestamps[1:]\<close> are only reached behind the
  \<^verbatim>\<open>if not timestamps: return []\<close> guard, where the list is non-empty.
\<close>

definition find_abnormal_segments ::
    "'a::{linorder,minus} list \<Rightarrow> 'a \<Rightarrow> 'a list \<times> ('a \<times> 'a) list" where
  "find_abnormal_segments timestamps gap =
     (if timestamps = [] then (timestamps, [])
      else
        let sorted_ts = sort timestamps;
            (segs, s, e) = foldl (segment_step gap) ([], hd sorted_ts, hd sorted_ts) (tl sorted_ts)
        in (sorted_ts, segs @ [(s, e)]))"

text \<open>
  The algorithm as the specification words it: a current segment \<open>(s, e)\<close> is extended
  while the next timestamp is within the gap, otherwise it is closed and a new one is
  started at \<open>(t, t)\<close>; the last open segment is closed at the end.
\<close>

fun merge_from :: "'a::{linorder,minus} \<Rightarrow> 'a \<times> 'a \<Rightarrow> 'a list \<Rightarrow> ('a \<times> 'a) list" where
  "merge_from g (s, e) [] = [(s, e)]"
| "merge_from g (s, e) (t # ts) =
     (if t - e \<le> g then merge_from g (s, t) ts else (s, e) # merge_from g (t, t) ts)"

definition spec_segments :: "'a::{linorder,minus} list \<Rightarrow> 'a \<Rightarrow> ('a \<times> 'a) list" where
  "spec_segments timestamps g =
     (case sort timestamps of [] \<Rightarrow> [] | t0 # rest \<Rightarrow> merge_from g (t0, t0) rest)"

fun gaps_exceed :: "'a::{linorder,minus} \<Rightarrow> ('a \<times> 'a) list \<Rightarrow> bool" where
  "gaps_exceed g [] = True"
| "gaps_exceed g [x] = True"
| "gaps_exceed g (a # b # rest) = (g < fst b - snd a \<and> gaps_exceed g (b # rest))"

section \<open>Range-serving endpoint\<close>

text \<open>
  Exceptions of the request handlers.  \<^verbatim>\<open>HTTPException(status, detail)\<close> is raised by
  the handlers themselves.  \<^verbatim>\<open>OSError\<close> is what \<^verbatim>\<open>os.remove\<close> raises on a path it
  cannot delete (it names the path it was given) and what \<^verbatim>\<open>f.seek\<close> raises on an
  offset the file system refuses.  \<^verbatim>\<open>KeyError\<close> is what the ground-truth archive raises
  on a missing key.  \<^verbatim>\<open>ValueError\<close> is what \<^verbatim>\<open>int\<close> raises on a string of more
  digits than the interpreter converts, and what \<^verbatim>\<open>f.seek\<close> raises on an offset that
  does not fit a signed 64-bit integer.
\<close>

datatype error = HTTPException nat string | OSError string | KeyError string | ValueError string

subsection \<open>The regular expression and the integer conversions\<close>

text \<open>
  \<^verbatim>\<open>re.match(r"bytes=(\d+)-(\d*)", range_header)\<close> anchors the pattern at the start of
  the header only.  Header values are Latin-1 strings, where \<^verbatim>\<open>\d\<close> matches exactly
  \<open>0\<close> to \<open>9\<close>.  Both groups are greedy.  The first takes the whole run of digits
  after \<^verbatim>\<open>bytes=\<close>: giving digits back cannot help, because the character after a
  shorter run is a digit and not the \<^verbatim>\<open>-\<close> the pattern wants next.  The second
  group takes the run of digits after the \<^verbatim>\<open>-\<close> and may be empty.  Whatever follows
  is not looked at.  The result is the pair of groups, or \<open>None\<close> for no match.
\<close>

definition is_digit :: "char \<Rightarrow> bool" where
  "is_digit c = (c \<in> set ''0123456789'')"

definition match_range :: "string \<Rightarrow> (string \<times> string) option" where
  "match_range range_header =
     (if take 6 range_header = ''bytes='' then
        let rest = drop 6 range_header;
            group1 = takeWhile is_digit rest;
            after1 = dropWhile is_digit rest
        in if group1 \<noteq> [] \<and> take 1 after1 = ''-''
           then Some (group1, takeWhile is_digit (drop 1 after1))
           else None
      else None)"

text \<open>
  \<^verbatim>\<open>int(s)\<close> on a string of decimal digits.  Python integers are unbounded, so the
  value is an \<open>int\<close>.  The interpreter refuses to convert a string of more than
  \<^verbatim>\<open>sys.get_int_max_str_digits()\<close> digits, 4300 unless configured otherwise, leading
  zeros counted, and raises \<^verbatim>\<open>ValueError\<close> instead.
\<close>

definition digit_value :: "char \<Rightarrow> int" where
  "digit_value c = of_char c - 48"

definition digits_value :: "string \<Rightarrow> int" where
  "digits_value ds = foldl (\<lambda>acc c. 10 * acc + digit_value c) 0 ds"

definition INT_MAX_STR_DIGITS :: nat where
  "INT_MAX_STR_DIGITS = 4300"

definition py_int :: "string \<Rightarrow> error + int" where
  "py_int ds =
     (if length ds > INT_MAX_STR_DIGITS
      then Inl (ValueError ''Exceeds the limit (4300 digits) for integer string conversion'')
      else Inr (digits_value ds))"

text \<open>
  \<^verbatim>\<open>str(i)\<close> (also used by the f-string) on an integer.  The integers it is applied to
  here are the parsed start, the clamped end, the file size and \<open>end - start + 1\<close>, all
  within the digit limit once \<^verbatim>\<open>int\<close> has accepted the header.
\<close>

function decimal :: "int \<Rightarrow> string" where
  "decimal n =
     (if n < 10 then [char_of (48 + n)] else decimal (n div 10) @ [char_of (48 + n mod 10)])"
  by pat_completeness auto
termination
  by (relation "measure nat") auto

declare decimal.simps [simp del]

definition str_int :: "int \<Rightarrow> string" where
  "str_int i = (if i < 0 then CHR ''-'' # decimal (- i) else decimal i)"

text \<open>The same on the natural numbers that count frames and clips.\<close>

fun str_nat :: "nat \<Rightarrow> string" where
  "str_nat n =
     (if n < 10 then [char_of (48 + n)] else str_nat (n div 10) @ [char_of (48 + n mod 10)])"

declare str_nat.simps [simp del]

subsection \<open>Responses and the request\<close>

text \<open>
  The two response objects the handler builds.
  \<^verbatim>\<open>StreamingResponse(content, status_code, headers, media_type)\<close> carries what its
  generator does when it is run: the exception it raises before the first chunk, or the
  chunks it yields, in order.  Of the request only \<^verbatim>\<open>request.headers.get(name)\<close> is
  used; header names are looked up in lower case.
\<close>

datatype 'b response =
    FileResponse string string
  | StreamingResponse "error + 'b list list" nat "(string \<times> string) list" string

text \<open>
  Modelled from the spec: \<^verbatim>\<open>FileResponse\<close> is a class of the web framework, which is
  not among the sources.  The handler builds it as
  \<^verbatim>\<open>FileResponse(path, media_type=media_type)\<close>, with no status code; the specification
  gives this full-file response the status 200, the default of the constructor.
  \<open>status_code\<close> is the status the response object carries when the handler returns
  it; for a \<^verbatim>\<open>StreamingResponse\<close> it is the one the handler passes.
\<close>

fun status_code :: "'b response \<Rightarrow> nat" where
  "status_code (FileResponse path media_type) = 200"
| "status_code (StreamingResponse content status hdrs media_type) = status"

record request =
  headers :: "string \<rightharpoonup> string"

text \<open>
  The stored files: a map from paths to contents, and the largest offset the file system
  accepts in \<^verbatim>\<open>f.seek\<close>.  \<^verbatim>\<open>os.path.exists(path)\<close> is \<open>files st path \<noteq> None\<close>
  and \<^verbatim>\<open>os.path.getsize(path)\<close> is the length of the contents.
\<close>

record 'b storage =
  files :: "string \<rightharpoonup> 'b list"
  max_offset :: int

subsection \<open>The generator \<^verbatim>\<open>iterfile\<close>\<close>

text \<open>
  \<^verbatim>\<open>f.seek(start)\<close> raises \<^verbatim>\<open>ValueError\<close> when the offset does not fit a signed
  64-bit integer and \<^verbatim>\<open>OSError\<close> when the file system refuses it; otherwise the
  position is \<open>start\<close>, also past the end of the file.
\<close>

definition file_seek :: "int \<Rightarrow> int \<Rightarrow> error + nat" where
  "file_seek max_off start =
     (if start \<ge> 2 ^ 63 then Inl (ValueError ''cannot fit int into an offset-sized integer'')
      else if start > max_off then Inl (OSError ''[Errno 22] Invalid argument'')
      else Inr (nat start))"

text \<open>
  The file is a list of bytes.  After the seek the loop reads
  \<^verbatim>\<open>min(1024*1024, remaining)\<close> bytes at the current position; a read at or past the
  end of the file returns the empty bytes object, which ends the loop.  \<open>remaining\<close>
  is a Python integer and may start out zero or negative.
\<close>

function iterfile_loop :: "'b list \<Rightarrow> nat \<Rightarrow> int \<Rightarrow> 'b list list" where
  "iterfile_loop file_bytes pos remaining =
     (if remaining > 0 then
        let chunk = take (nat (min (1024 * 1024) remaining)) (drop pos file_bytes)
        in if chunk = [] then []
           else chunk # iterfile_loop file_bytes (pos + length chunk) (remaining - int (length chunk))
      else [])"
  by pat_completeness auto
termination
  by (relation "measure (\<lambda>(file_bytes, pos, remaining). nat remaining)") auto

declare iterfile_loop.simps [simp del]

text \<open>
  The generator opens the file, seeks, and runs the loop.  The seek is made whatever
  \<open>len\<close> is, so it can raise even when there is nothing to read.
\<close>

definition iterfile :: "int \<Rightarrow> 'b list \<Rightarrow> int \<Rightarrow> int \<Rightarrow> error + 'b list list" where
  "iterfile max_off file_bytes start len =
     (case file_seek max_off start of
        Inl e \<Rightarrow> Inl e
      | Inr pos \<Rightarrow> Inr (iterfile_loop file_bytes pos len))"

subsection \<open>The handler \<^verbatim>\<open>_range_file\<close>\<close>

text \<open>
  \<^verbatim>\<open>if range_header:\<close> is false for a missing header and for an empty one.  The two
  calls of \<^verbatim>\<open>int\<close> are made in the order of the source, the second only when the
  second group is not empty; either can raise.  The source's \<^verbatim>\<open>end\<close> and
  \<^verbatim>\<open>length\<close> are \<open>end1\<close> and \<open>len\<close> here (\<open>end0\<close> is \<^verbatim>\<open>end\<close> before the clamp).
\<close>

definition range_file ::
    "'b storage \<Rightarrow> request \<Rightarrow> string \<Rightarrow> string \<Rightarrow> error + 'b response" where
  "range_file st request path media_type =
     (case files st path of
        None \<Rightarrow> Inl (HTTPException 404 ''Not found'')
      | Some file_bytes \<Rightarrow>
          let file_size = int (length file_bytes);
              range_header = headers request ''range''
          in (case range_header of
               None \<Rightarrow> Inr (FileResponse path media_type)
             | Some h \<Rightarrow>
                 if h = [] then Inr (FileResponse path media_type)
                 else (case match_range h of
                    None \<Rightarrow> Inr (FileResponse path media_type)
                  | Some (group1, group2) \<Rightarrow>
                      (case py_int group1 of
                         Inl e \<Rightarrow> Inl e
                       | Inr start \<Rightarrow>
                           (case (if group2 \<noteq> [] then py_int group2 else Inr (file_size - 1)) of
                              Inl e \<Rightarrow> Inl e
                            | Inr end0 \<Rightarrow>
                                let end1 = min end0 (file_size - 1);
                                    len = end1 - start + 1;
                                    hdrs = [(''Content-Range'',
                                               ''bytes '' @ str_int start @ ''-'' @ str_int end1
                                                 @ ''/'' @ str_int file_size),
                                            (''Accept-Ranges'', ''bytes''),
                                            (''Content-Length'', str_int len)]
                                in Inr (StreamingResponse
                                          (iterfile (max_offset st) file_bytes start len)
                                          206 hdrs media_type))))))"

text \<open>
  The format as the specification words it, \<^verbatim>\<open>bytes=<start>-<end?>\<close>, read as the
  form of the whole header: \<^verbatim>\<open>bytes=\<close>, one or more digits, \<^verbatim>\<open>-\<close>, then digits
  only, possibly none.
\<close>

definition spec_range_format :: "string \<Rightarrow> bool" where
  "spec_range_format h =
     (take 6 h = ''bytes='' \<and>
      (let rest = drop 6 h;
           start_digits = takeWhile is_digit rest;
           after1 = dropWhile is_digit rest
       in start_digits \<noteq> [] \<and> take 1 after1 = ''-'' \<and> list_all is_digit (drop 1 after1)))"

text \<open>A stored clip of ten bytes, on a file system that accepts offsets up to \<open>2 ^ 43\<close>.\<close>

definition sample_storage :: "char storage" where
  "sample_storage =
     \<lparr>files = [''abnormal_clips/clip_01.mp4'' \<mapsto> ''abcdefghij''], max_offset = 2 ^ 43\<rparr>"

text \<open>A run of \<open>n\<close> digits \<^verbatim>\<open>9\<close>, for headers with long numbers.\<close>

definition nines :: "nat \<Rightarrow> string" where
  "nines n = replicate n CHR ''9''"

definition range_request :: "string \<Rightarrow> request" where
  "range_request h = \<lparr>headers = [''range'' \<mapsto> h]\<rparr>"

section \<open>Artifact lifecycle and the processing run\<close>

subsection \<open>The file system\<close>

text \<open>
  The run works in five directories: the working directory \<^verbatim>\<open>.\<close> and the four
  directories below.  A directory is the list of its entries in \<^verbatim>\<open>os.listdir\<close>
  order.  An entry is \<open>Deletable\<close> when \<^verbatim>\<open>os.remove\<close> deletes it, and
  \<open>Undeletable\<close> when \<^verbatim>\<open>os.remove\<close> raises \<^verbatim>\<open>OSError\<close> on it: a subdirectory, or a
  file whose deletion the system refuses.  The state also holds the files sent to the
  summary service and a log of the operations performed, in order: every delete, also
  one that fails (\<open>RemoveFailed\<close>, with the path given to \<^verbatim>\<open>os.remove\<close>), every write
  and every upload.
\<close>

datatype node = Deletable | Undeletable

datatype fs_op =
    Remove string string | RemoveFailed string | Write string string | Upload string

record world =
  dirs :: "string \<Rightarrow> (string \<times> node) list"
  uploaded :: "string list"
  op_log :: "fs_op list"

definition ORIGINAL_DIR :: string where "ORIGINAL_DIR = ''originals''"
definition CLIP_DIR :: string where "CLIP_DIR = ''abnormal_clips''"
definition GROUND_TRUTH :: string where "GROUND_TRUTH = ''groundtruth''"
definition FRAME_DIR :: string where "FRAME_DIR = ''abnormal_frames''"
definition CWD :: string where "CWD = ''.''"
definition EXT :: string where "EXT = ''.mp4''"

definition os_listdir :: "world \<Rightarrow> string \<Rightarrow> string list" where
  "os_listdir w d = map fst (dirs w d)"

text \<open>
  \<^verbatim>\<open>os.remove(path)\<close>, where \<open>path\<close> is the string the source passes and \<open>(d, f)\<close>
  the directory and entry it denotes: \<^verbatim>\<open>os.path.join(d, f)\<close> in the sweep of the three
  directories, the bare name \<open>f\<close> in the sweep of the working directory.  The call
  deletes the entry, or raises \<^verbatim>\<open>OSError\<close> naming \<open>path\<close> and leaves the entries as
  they are.
\<close>

definition os_remove :: "string \<Rightarrow> string \<Rightarrow> string \<Rightarrow> world \<Rightarrow> (error + unit) \<times> world" where
  "os_remove path d f w =
     (case map_of (dirs w d) f of
        Some Deletable \<Rightarrow>
          (Inr (), w\<lparr>dirs := (dirs w)(d := filter (\<lambda>(n, k). n \<noteq> f) (dirs w d)),
                     op_log := op_log w @ [Remove d f]\<rparr>)
      | Some Undeletable \<Rightarrow> (Inl (OSError path), w\<lparr>op_log := op_log w @ [RemoveFailed path]\<rparr>)
      | None \<Rightarrow> (Inl (OSError path), w\<lparr>op_log := op_log w @ [RemoveFailed path]\<rparr>))"

text \<open>
  Writing a file creates the entry when the name is new and keeps the entry when the
  name is there already (the contents of files are not part of the state).
\<close>

definition write_file :: "string \<Rightarrow> string \<Rightarrow> world \<Rightarrow> world" where
  "write_file d f w =
     w\<lparr>dirs := (dirs w)(d := (if f \<in> set (map fst (dirs w d)) then dirs w d
                              else dirs w d @ [(f, Deletable)])),
       op_log := op_log w @ [Write d f]\<rparr>"

fun is_remove :: "fs_op \<Rightarrow> bool" where
  "is_remove (Remove d f) = True"
| "is_remove (RemoveFailed path) = True"
| "is_remove (Write d f) = False"
| "is_remove (Upload f) = False"

definition upload :: "string \<Rightarrow> world \<Rightarrow> world" where
  "upload f w = w\<lparr>uploaded := uploaded w @ [f], op_log := op_log w @ [Upload f]\<rparr>"

subsection \<open>\<^verbatim>\<open>clean_dirs\<close>\<close>

definition startswith :: "string \<Rightarrow> string \<Rightarrow> bool" where
  "startswith s p = (take (length p) s = p)"

text \<open>The inner loop \<^verbatim>\<open>for f in os.listdir(d): os.remove(os.path.join(d, f))\<close>.\<close>

fun remove_files :: "string \<Rightarrow> string list \<Rightarrow> world \<Rightarrow> (error + unit) \<times> world" where
  "remove_files d [] w = (Inr (), w)"
| "remove_files d (f # fs) w =
     (case os_remove (d @ ''/'' @ f) d f w of
        (Inl e, w') \<Rightarrow> (Inl e, w')
      | (Inr u, w') \<Rightarrow> remove_files d fs w')"

text \<open>The outer loop \<^verbatim>\<open>for d in (CLIP_DIR, FRAME_DIR, GROUND_TRUTH)\<close>.\<close>

fun sweep_dirs :: "string list \<Rightarrow> world \<Rightarrow> (error + unit) \<times> world" where
  "sweep_dirs [] w = (Inr (), w)"
| "sweep_dirs (d # ds) w =
     (case remove_files d (os_listdir w d) w of
        (Inl e, w') \<Rightarrow> (Inl e, w')
      | (Inr u, w') \<Rightarrow> sweep_dirs ds w')"

text \<open>
  The second loop, over \<^verbatim>\<open>os.listdir()\<close>, which deletes the entries of the working
  directory whose name starts with \<^verbatim>\<open>processed_{key}\<close> or \<^verbatim>\<open>combined_{key}\<close>.
\<close>

fun remove_run_files :: "string \<Rightarrow> string list \<Rightarrow> world \<Rightarrow> (error + unit) \<times> world" where
  "remove_run_files key [] w = (Inr (), w)"
| "remove_run_files key (f # fs) w =
     (if startswith f (''processed_'' @ key) \<or> startswith f (''combined_'' @ key) then
        (case os_remove f CWD f w of
           (Inl e, w') \<Rightarrow> (Inl e, w')
         | (Inr u, w') \<Rightarrow> remove_run_files key fs w')
      else remove_run_files key fs w)"

definition clean_dirs :: "string \<Rightarrow> world \<Rightarrow> (error + unit) \<times> world" where
  "clean_dirs key w =
     (case sweep_dirs [CLIP_DIR, FRAME_DIR, GROUND_TRUTH] w of
        (Inl e, w') \<Rightarrow> (Inl e, w')
      | (Inr u, w') \<Rightarrow> remove_run_files key (os_listdir w' CWD) w')"





text \<open>
  A state in which no delete of the sweep can fail: the names in each swept directory are
  distinct (as in any directory), every entry of the three working directories is
  deletable, and so is every entry of the working directory that the key selects.
\<close>

definition sweepable :: "string \<Rightarrow> world \<Rightarrow> bool" where
  "sweepable key w =
     ((\<forall>d \<in> {CLIP_DIR, FRAME_DIR, GROUND_TRUTH}.
         distinct (map fst (dirs w d)) \<and> (\<forall>(n, k) \<in> set (dirs w d). k = Deletable))
      \<and> distinct (map fst (dirs w CWD))
      \<and> (\<forall>(n, k) \<in> set (dirs w CWD).
            startswith n (''processed_'' @ key) \<or> startswith n (''combined_'' @ key)
              \<longrightarrow> k = Deletable))"

text \<open>
  Whatever the outcome, a run of deletes only removes entries, uploads nothing, and adds
  only \<open>Remove\<close> operations to the log.
\<close>

definition only_removed :: "world \<Rightarrow> world \<Rightarrow> bool" where
  "only_removed w w' =
     ((\<forall>d. set (dirs w' d) \<subseteq> set (dirs w d)) \<and> uploaded w' = uploaded w
      \<and> (\<exists>removes. op_log w' = op_log w @ removes \<and> (\<forall>op \<in> set removes. is_remove op)))"

text \<open>
  The other direction: from \<open>w\<close> to \<open>w'\<close> the log has grown by operations that are
  not deletes.
\<close>

definition no_removes_since :: "world \<Rightarrow> world \<Rightarrow> bool" where
  "no_removes_since w w' =
     (\<exists>rest. op_log w' = op_log w @ rest \<and> (\<forall>op \<in> set rest. \<not> is_remove op))"

subsection \<open>The frame loop\<close>

definition RAFT_TH :: real where "RAFT_TH = 0.1"
definition MARGIN_S :: real where "MARGIN_S = 5.0"
definition GAP_S :: real where "GAP_S = 4.0"

definition zfill :: "nat \<Rightarrow> string \<Rightarrow> string" where
  "zfill width s = replicate (width - length s) CHR ''0'' @ s"

text \<open>
  The detector and the flow estimator are external.  The loop sees, for each frame read,
  the mean flow magnitude against the previous frame; for the first frame there is no
  previous frame (\<open>has_prev\<close> is false) and no flow is computed, whatever the list
  holds there.  The loop appends to \<^verbatim>\<open>times\<close> (here \<open>tms\<close>) and writes one image per
  anomalous frame; it returns the timestamps and the names of the images, in order.
\<close>

fun frame_loop :: "real \<Rightarrow> real list \<Rightarrow> nat \<Rightarrow> bool \<Rightarrow> real list \<times> string list
    \<Rightarrow> real list \<times> string list" where
  "frame_loop fps [] idx has_prev (tms, imgs) = (tms, imgs)"
| "frame_loop fps (flow_mean # rest) idx has_prev (tms, imgs) =
     (let idx' = idx + 1 in
      if has_prev \<and> flow_mean > RAFT_TH
      then frame_loop fps rest idx' True
             (tms @ [real idx' / fps],
              imgs @ [''frame_'' @ zfill 6 (str_nat idx') @ ''.jpg''])
      else frame_loop fps rest idx' True (tms, imgs))"

subsection \<open>Margins and clip extraction\<close>

text \<open>
  The loop \<^verbatim>\<open>for i, (s, e) in enumerate(segments, start=1)\<close> of \<^verbatim>\<open>process_video\<close>
  (and of \<^verbatim>\<open>main\<close>): one call of \<^verbatim>\<open>export_clip\<close> per segment, recorded with its
  arguments.
\<close>

record clip_job =
  outfn :: string
  start_s :: real
  end_s :: real
  segment :: "real \<times> real"

fun clip_jobs :: "real \<Rightarrow> real \<Rightarrow> nat \<Rightarrow> (real \<times> real) list \<Rightarrow> clip_job list" where
  "clip_jobs margin vlen i [] = []"
| "clip_jobs margin vlen i ((s, e) # segments) =
     (let start = max 0 (s - margin);
          end1 = min vlen (e + margin)
      in \<lparr>outfn = ''clip_'' @ zfill 2 (str_nat i) @ EXT, start_s = start, end_s = end1,
           segment = (s, e)\<rparr>
         # clip_jobs margin vlen (i + 1) segments)"

subsection \<open>\<^verbatim>\<open>process_video\<close>\<close>

text \<open>
  What one upload brings with it: the file name, the key
  \<^verbatim>\<open>os.path.splitext(filename)[0]\<close>, whether the ground-truth archive has the key,
  whether the video opens, the frame rate and frame count the container reports, the
  mean flow magnitude per frame read, and the file name \<^verbatim>\<open>create_timestamp_clip\<close>
  gives the title card of a segment.
\<close>

record upload_env =
  filename :: string
  run_key :: string
  gt_has_key :: bool
  cap_opened :: bool
  cap_fps :: real
  frame_count :: int
  flow_means :: "real list"
  title_card :: "real \<times> real \<Rightarrow> string"

record process_video_response =
  original_video :: string
  clips :: "string list"
  summary_file :: string
  ground_truth_files :: "string list"

definition write_files :: "string \<Rightarrow> string list \<Rightarrow> world \<Rightarrow> world" where
  "write_files d fs w = foldl (\<lambda>w f. write_file d f w) w fs"

text \<open>
  \<^verbatim>\<open>stitch_clips\<close> writes one title card per clip into the working directory and then
  the combined file.
\<close>

definition stitch_clips :: "upload_env \<Rightarrow> clip_job list \<Rightarrow> string \<Rightarrow> world \<Rightarrow> world" where
  "stitch_clips env clip_files out w =
     write_file CWD out (write_files CWD (map (\<lambda>j. title_card env (segment j)) clip_files) w)"

definition effective_fps :: "upload_env \<Rightarrow> real" where
  "effective_fps env = (if cap_fps env = 0 then 30.0 else cap_fps env)"

definition detected_segments :: "upload_env \<Rightarrow> (real \<times> real) list" where
  "detected_segments env =
     snd (find_abnormal_segments
            (fst (frame_loop (effective_fps env) (flow_means env) 0 False ([], []))) GAP_S)"

definition process_video :: "upload_env \<Rightarrow> world \<Rightarrow> (error + process_video_response) \<times> world" where
  "process_video env w =
     (case clean_dirs (run_key env) w of
        (Inl e, w1) \<Rightarrow> (Inl e, w1)
      | (Inr u, w1) \<Rightarrow>
          let w2 = write_file ORIGINAL_DIR (filename env) w1 in
          if \<not> gt_has_key env then (Inl (KeyError (run_key env)), w2)
          else
            let gt_file = run_key env @ ''_groundtruth.png'';
                w3 = write_file GROUND_TRUTH gt_file w2
            in
            if \<not> cap_opened env
            then (Inl (HTTPException 400 ''Uploaded file is not a valid video.''), w3)
            else
              let OUT_FULL = ''processed_'' @ run_key env @ EXT;
                  OUT_COMBINED = ''combined_'' @ run_key env @ EXT;
                  fps = effective_fps env;
                  vlen = real_of_int (frame_count env) / fps;
                  w4 = write_file CWD OUT_FULL w3;
                  w5 = write_files FRAME_DIR
                         (snd (frame_loop fps (flow_means env) 0 False ([], []))) w4;
                  segments = detected_segments env;
                  clip_files = clip_jobs MARGIN_S vlen 1 segments;
                  w6 = write_files CLIP_DIR (map outfn clip_files) w5
              in
              if clip_files \<noteq> [] then
                let w7 = stitch_clips env clip_files OUT_COMBINED w6;
                    w8 = upload OUT_COMBINED w7;
                    w9 = write_file CWD ''summaries.json'' w8
                in (Inr \<lparr>original_video = filename env, clips = map outfn clip_files,
                          summary_file = ''summaries.json'', ground_truth_files = [gt_file]\<rparr>, w9)
              else
                (Inr \<lparr>original_video = filename env, clips = map outfn clip_files,
                      summary_file = '''', ground_truth_files = [gt_file]\<rparr>, w6))"

subsection \<open>A sample state and a sample upload\<close>

definition sample_world :: world where
  "sample_world =
     \<lparr>dirs = (\<lambda>d. if d = ''abnormal_clips'' then [(''clip_01.mp4'', Deletable), (''clip_02.mp4'', Deletable)]
                  else if d = ''abnormal_frames'' then [(''frame_000007.jpg'', Deletable)]
                  else if d = ''.'' then [(''abnormal_clips'', Undeletable), (''processed_D001.mp4'', Deletable),
                                        (''combined_D001.mp4'', Deletable), (''processed_D002.mp4'', Deletable)]
                  else []),
      uploaded = [], op_log = []\<rparr>"



definition sample_env :: upload_env where
  "sample_env =
     \<lparr>filename = ''D001.avi'', run_key = ''D001'', gt_has_key = True, cap_opened = True,
      cap_fps = 2, frame_count = 40,
      flow_means = [0.9, 0.05, 0.3, 0.2, 0.0, 0.0, 0.0, 0.0, 0.0, 0.0, 0.0, 0.0, 0.0, 0.0, 0.0, 0.0,
                    0.0, 0.0, 0.5],
      title_card = (\<lambda>seg. if seg = (1.5, 2.0) then ''ts_1.5s_to_2.0s.mp4'' else ''ts_9.5s_to_9.5s.mp4'')\<rparr>"

definition quiet_env :: upload_env where
  "quiet_env = sample_env\<lparr>flow_means := [0.9, 0.05, 0.0, 0.1]\<rparr>"

section \<open>Properties of the temporal segmenter\<close>

subsection \<open>The loop computes the specified merge\<close>

lemma foldl_segment_step:
  "foldl (segment_step g) (segs, s, e) ts = (segs', s', e')
     \<Longrightarrow> segs' @ [(s', e')] = segs @ merge_from g (s, e) ts"
proof (induction ts arbitrary: segs s e)
  case Nil
  then show ?case by simp
next
  case (Cons t ts)
  show ?case
  proof (cases "t - e \<le> g")
    case True
    with Cons.prems have "foldl (segment_step g) (segs, s, t) ts = (segs', s', e')" by simp
    from Cons.IH [OF this] True show ?thesis by simp
  next
    case False
    with Cons.prems have "foldl (segment_step g) (segs @ [(s, e)], t, t) ts = (segs', s', e')"
      by simp
    from Cons.IH [OF this] False show ?thesis by simp
  qed
qed

lemma find_abnormal_segments_merge_from:
  "snd (find_abnormal_segments ts g) =
     (if ts = [] then [] else merge_from g (hd (sort ts), hd (sort ts)) (tl (sort ts)))"
proof (cases "ts = []")
  case True
  then show ?thesis by (simp add: find_abnormal_segments_def)
next
  case False
  obtain segs s e where f:
    "foldl (segment_step g) ([], hd (sort ts), hd (sort ts)) (tl (sort ts)) = (segs, s, e)"
    using prod_cases3 by blast
  from foldl_segment_step [OF f] f False show ?thesis
    by (simp add: find_abnormal_segments_def Let_def)
qed

lemma sort_eq_Nil_iff: "sort ts = [] \<longleftrightarrow> ts = []"
  by (metis length_sort length_0_conv)

lemma find_abnormal_segments_spec:
  "snd (find_abnormal_segments ts g) = spec_segments ts g"
proof (cases "sort ts")
  case Nil
  then have "ts = []" by (simp add: sort_eq_Nil_iff)
  then show ?thesis by (simp add: find_abnormal_segments_def spec_segments_def)
next
  case (Cons t0 rest)
  then have "ts \<noteq> []" by auto
  with Cons show ?thesis
    by (simp add: find_abnormal_segments_merge_from spec_segments_def)
qed

lemma merge_from_starts: "fst ` set (merge_from g (s, e) ts) \<subseteq> insert s (set ts)"
  by (induction ts arbitrary: s e) (auto split: if_splits)

lemma merge_from_hd: "\<exists>e' rest. merge_from g (s, e) ts = (s, e') # rest"
  by (induction ts arbitrary: e) auto

lemma merge_from_wellformed:
  "s \<le> e \<Longrightarrow> sorted (e # ts) \<Longrightarrow> \<forall>(a, b) \<in> set (merge_from g (s, e) ts). a \<le> b"
proof (induction ts arbitrary: s e)
  case Nil
  then show ?case by simp
next
  case (Cons t ts)
  have st: "s \<le> t" and tt: "sorted (t # ts)" using Cons.prems by auto
  show ?case using Cons.IH [OF st tt] Cons.IH [OF order_refl tt] Cons.prems(1) by auto
qed

lemma merge_from_sorted_starts:
  "s \<le> e \<Longrightarrow> sorted (e # ts) \<Longrightarrow> sorted (map fst (merge_from g (s, e) ts))"
proof (induction ts arbitrary: s e)
  case Nil
  then show ?case by simp
next
  case (Cons t ts)
  have st: "s \<le> t" and tt: "sorted (t # ts)" using Cons.prems by auto
  have "\<forall>x \<in> fst ` set (merge_from g (t, t) ts). s \<le> x"
  proof
    fix x assume "x \<in> fst ` set (merge_from g (t, t) ts)"
    then have "x \<in> insert t (set ts)" using merge_from_starts [of g t t ts] by blast
    then have "t \<le> x" using tt by auto
    with st show "s \<le> x" by simp
  qed
  then show ?case using Cons.IH [OF st tt] Cons.IH [OF order_refl tt] by auto
qed

lemma merge_from_gaps: "gaps_exceed g (merge_from g (s, e) ts)"
proof (induction ts arbitrary: s e)
  case Nil
  then show ?case by simp
next
  case (Cons t ts)
  obtain e' rest where h: "merge_from g (t, t) ts = (t, e') # rest"
    using merge_from_hd by blast
  show ?case using Cons.IH [of s t] Cons.IH [of t t] h by auto
qed

lemma gaps_exceed_nth:
  "gaps_exceed g segs \<Longrightarrow> Suc i < length segs \<Longrightarrow> g < fst (segs ! Suc i) - snd (segs ! i)"
proof (induction g segs arbitrary: i rule: gaps_exceed.induct)
  case (3 g a b rest)
  then show ?case by (cases i) auto
qed simp_all

text \<open>
  Where subtraction is that of an ordered group and the gap is not negative, a gap above
  \<open>g\<close> means that consecutive segments do not touch.
\<close>

lemma find_abnormal_segments_disjoint:
  fixes ts :: "'a::linordered_ab_group_add list"
  assumes "0 \<le> g" and "Suc i < length (snd (find_abnormal_segments ts g))"
  shows "snd (snd (find_abnormal_segments ts g) ! i) < fst (snd (find_abnormal_segments ts g) ! Suc i)"
proof -
  let ?segs = "snd (find_abnormal_segments ts g)"
  from assms(2) have ne: "ts \<noteq> []" by (auto simp: find_abnormal_segments_def)
  then have segs: "?segs = merge_from g (hd (sort ts), hd (sort ts)) (tl (sort ts))"
    by (simp add: find_abnormal_segments_merge_from)
  have "gaps_exceed g ?segs" unfolding segs by (rule merge_from_gaps)
  from gaps_exceed_nth [OF this assms(2)] assms(1)
  have "0 < fst (?segs ! Suc i) - snd (?segs ! i)" by (rule le_less_trans [rotated])
  then show ?thesis by simp
qed

lemma find_abnormal_segments_fst:
  "fst (find_abnormal_segments ts g) = (if ts = [] then ts else sort ts)"
  by (simp add: find_abnormal_segments_def Let_def split: prod.splits)

text \<open>
  Claim C1.  For every list of timestamps and every gap tolerance, the segments returned
  by \<open>find_abnormal_segments\<close> are those of the specified algorithm: sort ascending, open
  the segment \<open>(t0, t0)\<close>, extend its end while the next timestamp is within the gap,
  otherwise close it and open \<open>(t, t)\<close>, and close the last segment at the end.  Empty
  input gives no segment, a single timestamp \<open>t\<close> gives \<open>[(t, t)]\<close>, and
  \<open>[1.0, 2.5, 3.0, 10.0]\<close> with gap \<open>4.0\<close> gives \<open>[(1.0, 3.0), (10.0, 10.0)]\<close>.
  The gap need not even be non-negative.
\<close>

theorem find_abnormal_segments_algorithm:
  fixes ts :: "'a::{linorder,minus} list"
  shows "snd (find_abnormal_segments ts g) = spec_segments ts g
    \<and> snd (find_abnormal_segments ([] :: 'a list) g) = []
    \<and> snd (find_abnormal_segments [t] g) = [(t, t)]
    \<and> snd (find_abnormal_segments [1.0, 2.5, 3.0, 10.0 :: real] 4.0) = [(1.0, 3.0), (10.0, 10.0)]"
proof -
  have a: "snd (find_abnormal_segments ts g) = spec_segments ts g"
    by (rule find_abnormal_segments_spec)
  have b: "snd (find_abnormal_segments ([] :: 'a list) g) = []"
    by (simp add: find_abnormal_segments_def)
  have c: "snd (find_abnormal_segments [t] g) = [(t, t)]"
    by (simp add: find_abnormal_segments_def)
  have d: "snd (find_abnormal_segments [1.0, 2.5, 3.0, 10.0 :: real] 4.0)
             = [(1.0, 3.0), (10.0, 10.0)]"
    by (simp add: find_abnormal_segments_def)
  from a b c d show ?thesis by blast
qed

theorem find_abnormal_segments_algorithm_witness:
  "snd (find_abnormal_segments [10.0, 3.0, 1.0, 2.5 :: real] 4.0) = [(1.0, 3.0), (10.0, 10.0)]
   \<and> spec_segments [10.0, 3.0, 1.0, 2.5 :: real] 4.0 = [(1.0, 3.0), (10.0, 10.0)]"
  using find_abnormal_segments_algorithm [of "[10.0, 3.0, 1.0, 2.5 :: real]" "4.0" 0]
  by (simp add: spec_segments_def)

text \<open>
  Claim C2.  Every returned segment \<open>(s, e)\<close> has \<open>s \<le> e\<close>, the segments are in
  non-decreasing start order, and for consecutive segments \<open>(s1, e1)\<close>, \<open>(s2, e2)\<close> the
  difference \<open>s2 - e1\<close>, as the code computes it, is strictly greater than the gap.
\<close>

theorem find_abnormal_segments_invariant:
  fixes ts :: "'a::{linorder,minus} list"
  assumes "segs = snd (find_abnormal_segments ts g)"
  shows "(\<forall>(s, e) \<in> set segs. s \<le> e)
    \<and> sorted (map fst segs)
    \<and> (\<forall>i. Suc i < length segs \<longrightarrow> g < fst (segs ! Suc i) - snd (segs ! i))"
proof (cases "ts = []")
  case True
  with assms show ?thesis by (simp add: find_abnormal_segments_def)
next
  case False
  then have ne: "sort ts \<noteq> []" by (simp add: sort_eq_Nil_iff)
  define t0 where "t0 = hd (sort ts)"
  define rest where "rest = tl (sort ts)"
  have srt: "sorted (t0 # rest)" using ne by (simp add: t0_def rest_def)
  have segs: "segs = merge_from g (t0, t0) rest"
    using assms False by (simp add: find_abnormal_segments_merge_from t0_def rest_def)
  have "\<forall>(s, e) \<in> set segs. s \<le> e"
    unfolding segs by (rule merge_from_wellformed [OF order_refl srt])
  moreover have "sorted (map fst segs)"
    unfolding segs by (rule merge_from_sorted_starts [OF order_refl srt])
  moreover have "\<forall>i. Suc i < length segs \<longrightarrow> g < fst (segs ! Suc i) - snd (segs ! i)"
    unfolding segs using gaps_exceed_nth [OF merge_from_gaps] by blast
  ultimately show ?thesis by blast
qed

theorem find_abnormal_segments_invariant_witness:
  "snd (find_abnormal_segments [10.0, 3.0, 1.0, 2.5 :: real] 4.0) = [(1.0, 3.0), (10.0, 10.0)]
    \<and> (1.0 :: real) \<le> 3.0
    \<and> sorted (map fst (snd (find_abnormal_segments [10.0, 3.0, 1.0, 2.5 :: real] 4.0)))
    \<and> (4.0 :: real) < fst (snd (find_abnormal_segments [10.0, 3.0, 1.0, 2.5 :: real] 4.0) ! Suc 0)
                        - snd (snd (find_abnormal_segments [10.0, 3.0, 1.0, 2.5 :: real] 4.0) ! 0)"
proof -
  let ?segs = "snd (find_abnormal_segments [10.0, 3.0, 1.0, 2.5 :: real] 4.0)"
  have v: "?segs = [(1.0, 3.0), (10.0, 10.0)]"
    by (simp add: find_abnormal_segments_def)
  have inv: "(\<forall>(s, e) \<in> set ?segs. s \<le> e) \<and> sorted (map fst ?segs)
      \<and> (\<forall>i. Suc i < length ?segs \<longrightarrow> 4.0 < fst (?segs ! Suc i) - snd (?segs ! i))"
    by (rule find_abnormal_segments_invariant [OF refl])
  have len: "Suc 0 < length ?segs" using v by simp
  from inv len have gap: "4.0 < fst (?segs ! Suc 0) - snd (?segs ! 0)" by blast
  from inv have srt: "sorted (map fst ?segs)" by blast
  have le: "(1.0 :: real) \<le> 3.0" by simp
  from v le srt gap show ?thesis by blast
qed

text \<open>
  Claim C10.  The call mutates its argument: for a non-empty list, the caller's list holds
  the same timestamps in ascending order after the call, and the returned segments are
  the merge of that sorted list.
\<close>

theorem find_abnormal_segments_sorts_argument:
  fixes ts :: "'a::{linorder,minus} list"
  assumes "ts \<noteq> []"
  shows "fst (find_abnormal_segments ts g) = sort ts
    \<and> sorted (fst (find_abnormal_segments ts g))
    \<and> mset (fst (find_abnormal_segments ts g)) = mset ts
    \<and> snd (find_abnormal_segments ts g) =
        merge_from g (hd (fst (find_abnormal_segments ts g)), hd (fst (find_abnormal_segments ts g)))
          (tl (fst (find_abnormal_segments ts g)))"
  using assms by (simp add: find_abnormal_segments_fst find_abnormal_segments_merge_from)

theorem find_abnormal_segments_sorts_argument_witness:
  "[3.0, 1.0, 2.0 :: real] \<noteq> []
   \<and> fst (find_abnormal_segments [3.0, 1.0, 2.0 :: real] 4.0) = [1.0, 2.0, 3.0]
   \<and> fst (find_abnormal_segments [3.0, 1.0, 2.0 :: real] 4.0) \<noteq> [3.0, 1.0, 2.0]
   \<and> snd (find_abnormal_segments [3.0, 1.0, 2.0 :: real] 4.0) = [(1.0, 3.0)]"
proof -
  have h: "[3.0, 1.0, 2.0 :: real] \<noteq> []" by simp
  show ?thesis using find_abnormal_segments_sorts_argument [OF h, of "4.0"] by simp
qed

section \<open>Properties of the range-serving endpoint\<close>

subsection \<open>The generator\<close>

lemma iterfile_loop_nonpositive:
  "remaining \<le> 0 \<Longrightarrow> iterfile_loop file_bytes pos remaining = []"
  by (simp add: iterfile_loop.simps [of file_bytes pos remaining])

lemma iterfile_loop_concat:
  "concat (iterfile_loop file_bytes pos remaining) = take (nat remaining) (drop pos file_bytes)"
proof (induction file_bytes pos remaining rule: iterfile_loop.induct)
  case (1 file_bytes pos remaining)
  define k where "k = nat (min (1024 * 1024) remaining)"
  define chunk where "chunk = take k (drop pos file_bytes)"
  show ?case
  proof (cases "remaining > 0")
    case False
    then show ?thesis by (simp add: iterfile_loop_nonpositive)
  next
    case pos_rem: True
    then have k_pos: "0 < k" and k_le: "k \<le> nat remaining" by (auto simp: k_def)
    show ?thesis
    proof (cases "chunk = []")
      case True
      then have "drop pos file_bytes = []" using k_pos by (auto simp: chunk_def)
      with True pos_rem show ?thesis
        by (simp add: iterfile_loop.simps [of file_bytes pos remaining] chunk_def k_def)
    next
      case False
      have ih: "concat (iterfile_loop file_bytes (pos + length chunk) (remaining - int (length chunk)))
                  = take (nat (remaining - int (length chunk))) (drop (pos + length chunk) file_bytes)"
        using "1.IH" [OF pos_rem, of chunk] False by (simp add: chunk_def k_def)
      have len: "length chunk \<le> nat remaining" using k_le by (simp add: chunk_def)
      have "take (nat remaining) (drop pos file_bytes)
              = take (length chunk + (nat remaining - length chunk)) (drop pos file_bytes)"
        using len by simp
      also have "\<dots> = take (length chunk) (drop pos file_bytes)
                      @ take (nat remaining - length chunk) (drop (length chunk) (drop pos file_bytes))"
        by (rule take_add)
      also have "take (length chunk) (drop pos file_bytes) = chunk"
        by (simp add: chunk_def min_def)
      finally have split: "take (nat remaining) (drop pos file_bytes)
          = chunk @ take (nat remaining - length chunk) (drop (pos + length chunk) file_bytes)"
        by (simp add: add.commute)
      have eq: "nat (remaining - int (length chunk)) = nat remaining - length chunk" by simp
      have unfold: "iterfile_loop file_bytes pos remaining
          = chunk # iterfile_loop file_bytes (pos + length chunk) (remaining - int (length chunk))"
        using pos_rem False
        by (subst iterfile_loop.simps) (simp add: chunk_def k_def Let_def)
      show ?thesis by (simp only: unfold concat.simps ih split eq)
    qed
  qed
qed

lemma iterfile_loop_bounded:
  "c \<in> set (iterfile_loop file_bytes pos remaining) \<Longrightarrow> c \<noteq> [] \<and> length c \<le> 1024 * 1024"
proof (induction file_bytes pos remaining rule: iterfile_loop.induct)
  case (1 file_bytes pos remaining)
  define chunk where "chunk = take (nat (min (1024 * 1024) remaining)) (drop pos file_bytes)"
  show ?case
  proof (cases "remaining > 0 \<and> chunk \<noteq> []")
    case False
    with "1.prems" show ?thesis
      by (auto simp: iterfile_loop.simps [of file_bytes pos remaining] chunk_def Let_def
               split: if_splits)
  next
    case True
    then have unfold: "iterfile_loop file_bytes pos remaining
        = chunk # iterfile_loop file_bytes (pos + length chunk) (remaining - int (length chunk))"
      by (subst iterfile_loop.simps) (simp add: chunk_def Let_def)
    have "c = chunk
        \<or> c \<in> set (iterfile_loop file_bytes (pos + length chunk) (remaining - int (length chunk)))"
      using "1.prems" unfolding unfold by simp
    then show ?thesis
    proof
      assume "c = chunk"
      with True show ?thesis by (simp add: chunk_def)
    next
      assume "c \<in> set (iterfile_loop file_bytes (pos + length chunk) (remaining - int (length chunk)))"
      then show ?thesis using "1.IH" [of chunk] True by (simp add: chunk_def)
    qed
  qed
qed

lemma iterfile_seek_ok:
  "start < 2 ^ 63 \<Longrightarrow> start \<le> max_off
     \<Longrightarrow> iterfile max_off file_bytes start len = Inr (iterfile_loop file_bytes (nat start) len)"
  by (simp add: iterfile_def file_seek_def)

lemma iterfile_seek_fails:
  "2 ^ 63 \<le> start \<or> max_off < start \<Longrightarrow> \<exists>e. iterfile max_off file_bytes start len = Inl e"
  by (auto simp: iterfile_def file_seek_def)

subsection \<open>The regular expression\<close>

lemma not_digit_hyphen: "\<not> is_digit CHR ''-''"
  by (simp add: is_digit_def)

lemma takeWhile_digits: "list_all is_digit (takeWhile is_digit xs)"
  by (induction xs) auto

lemma takeWhile_dropWhile_Nil: "takeWhile P (dropWhile P xs) = []"
  by (induction xs) auto

lemma match_range_nonempty: "match_range h = Some (g1, g2) \<Longrightarrow> h \<noteq> []"
  by (auto simp: match_range_def split: if_splits)

text \<open>
  A header matches exactly when it begins with \<^verbatim>\<open>bytes=\<close>, a non-empty run of digits,
  a hyphen and a run of digits; the groups are the two runs, the second taken as long as
  possible.
\<close>

lemma match_range_shape:
  assumes "ds1 \<noteq> []" and "list_all is_digit ds1" and "list_all is_digit ds2"
    and "takeWhile is_digit rest = []"
  shows "match_range (''bytes='' @ ds1 @ ''-'' @ ds2 @ rest) = Some (ds1, ds2)"
proof -
  have d1: "\<And>x. x \<in> set ds1 \<Longrightarrow> is_digit x" and d2: "\<And>x. x \<in> set ds2 \<Longrightarrow> is_digit x"
    using assms(2,3) by (auto simp: list_all_iff)
  have t1: "takeWhile is_digit (ds1 @ CHR ''-'' # ds2 @ rest) = ds1"
    using d1 not_digit_hyphen by (simp add: takeWhile_append2)
  have r1: "dropWhile is_digit (ds1 @ CHR ''-'' # ds2 @ rest) = CHR ''-'' # ds2 @ rest"
    using d1 not_digit_hyphen by (simp add: dropWhile_append2)
  have t2: "takeWhile is_digit (ds2 @ rest) = ds2"
    using d2 assms(4) by (simp add: takeWhile_append2)
  show ?thesis using assms(1) by (simp add: match_range_def Let_def t1 r1 t2)
qed

lemma match_range_Some_shape:
  assumes "match_range h = Some (g1, g2)"
  shows "\<exists>rest. h = ''bytes='' @ g1 @ ''-'' @ g2 @ rest \<and> g1 \<noteq> [] \<and> list_all is_digit g1
           \<and> list_all is_digit g2 \<and> takeWhile is_digit rest = []"
proof -
  define after1 where "after1 = dropWhile is_digit (drop 6 h)"
  from assms have pre: "take 6 h = ''bytes=''" and g1: "g1 = takeWhile is_digit (drop 6 h)"
    and ne: "g1 \<noteq> []" and hy: "take 1 after1 = ''-''"
    and g2: "g2 = takeWhile is_digit (drop 1 after1)"
    by (auto simp: match_range_def Let_def after1_def split: if_splits)
  have "h = take 6 h @ drop 6 h" by simp
  also have "drop 6 h = g1 @ after1" by (simp add: g1 after1_def)
  also have "after1 = take 1 after1 @ drop 1 after1" by simp
  also have "drop 1 after1 = g2 @ dropWhile is_digit (drop 1 after1)" by (simp add: g2)
  finally have "h = ''bytes='' @ g1 @ ''-'' @ g2 @ dropWhile is_digit (drop 1 after1)"
    by (simp only: pre hy)
  moreover have "takeWhile is_digit (dropWhile is_digit (drop 1 after1)) = []"
    by (rule takeWhile_dropWhile_Nil)
  moreover have "list_all is_digit g1" "list_all is_digit g2"
    by (simp_all add: g1 g2 takeWhile_digits)
  ultimately show ?thesis using ne by blast
qed

lemma match_range_groups:
  "match_range h = Some (g1, g2) \<Longrightarrow> g1 \<noteq> [] \<and> list_all is_digit g1 \<and> list_all is_digit g2"
  using match_range_Some_shape by blast

lemma match_range_prefix_iff:
  "match_range h \<noteq> None \<longleftrightarrow>
     (\<exists>ds1 ds2 rest. h = ''bytes='' @ ds1 @ ''-'' @ ds2 @ rest \<and> ds1 \<noteq> []
        \<and> list_all is_digit ds1 \<and> list_all is_digit ds2)"
proof
  assume "match_range h \<noteq> None"
  then obtain g1 g2 where "match_range h = Some (g1, g2)" by auto
  from match_range_Some_shape [OF this] show
    "\<exists>ds1 ds2 rest. h = ''bytes='' @ ds1 @ ''-'' @ ds2 @ rest \<and> ds1 \<noteq> []
        \<and> list_all is_digit ds1 \<and> list_all is_digit ds2"
    by blast
next
  assume "\<exists>ds1 ds2 rest. h = ''bytes='' @ ds1 @ ''-'' @ ds2 @ rest \<and> ds1 \<noteq> []
        \<and> list_all is_digit ds1 \<and> list_all is_digit ds2"
  then obtain ds1 ds2 rest where h: "h = ''bytes='' @ ds1 @ ''-'' @ ds2 @ rest"
    and ne: "ds1 \<noteq> []" and d1: "list_all is_digit ds1" and d2: "list_all is_digit ds2"
    by blast
  have d2': "list_all is_digit (ds2 @ takeWhile is_digit rest)"
    using d2 by (simp add: takeWhile_digits)
  have "h = ''bytes='' @ ds1 @ ''-'' @ (ds2 @ takeWhile is_digit rest) @ dropWhile is_digit rest"
    by (simp add: h)
  then have "match_range h = Some (ds1, ds2 @ takeWhile is_digit rest)"
    using match_range_shape [OF ne d1 d2' takeWhile_dropWhile_Nil [of is_digit rest]]
    by (simp only:)
  then show "match_range h \<noteq> None" by simp
qed

lemma spec_range_format_iff:
  "spec_range_format h \<longleftrightarrow>
     (\<exists>ds1 ds2. h = ''bytes='' @ ds1 @ ''-'' @ ds2 \<and> ds1 \<noteq> []
        \<and> list_all is_digit ds1 \<and> list_all is_digit ds2)"
proof
  assume f: "spec_range_format h"
  define after1 where "after1 = dropWhile is_digit (drop 6 h)"
  define g1 where "g1 = takeWhile is_digit (drop 6 h)"
  from f have pre: "take 6 h = ''bytes=''" and ne: "g1 \<noteq> []" and hy: "take 1 after1 = ''-''"
    and d2: "list_all is_digit (drop 1 after1)"
    by (auto simp: spec_range_format_def Let_def after1_def g1_def)
  have "h = take 6 h @ drop 6 h" by simp
  also have "drop 6 h = g1 @ after1" by (simp add: g1_def after1_def)
  also have "after1 = take 1 after1 @ drop 1 after1" by simp
  finally have "h = ''bytes='' @ g1 @ ''-'' @ drop 1 after1" by (simp only: pre hy)
  moreover have "list_all is_digit g1" by (simp add: g1_def takeWhile_digits)
  ultimately show "\<exists>ds1 ds2. h = ''bytes='' @ ds1 @ ''-'' @ ds2 \<and> ds1 \<noteq> []
        \<and> list_all is_digit ds1 \<and> list_all is_digit ds2"
    using ne d2 by blast
next
  assume "\<exists>ds1 ds2. h = ''bytes='' @ ds1 @ ''-'' @ ds2 \<and> ds1 \<noteq> []
        \<and> list_all is_digit ds1 \<and> list_all is_digit ds2"
  then obtain ds1 ds2 where h: "h = ''bytes='' @ ds1 @ ''-'' @ ds2"
    and ne: "ds1 \<noteq> []" and d1: "list_all is_digit ds1" and d2: "list_all is_digit ds2"
    by blast
  have e1: "\<And>x. x \<in> set ds1 \<Longrightarrow> is_digit x" using d1 by (auto simp: list_all_iff)
  have t1: "takeWhile is_digit (ds1 @ CHR ''-'' # ds2) = ds1"
    using e1 not_digit_hyphen by (simp add: takeWhile_append2)
  have r1: "dropWhile is_digit (ds1 @ CHR ''-'' # ds2) = CHR ''-'' # ds2"
    using e1 not_digit_hyphen by (simp add: dropWhile_append2)
  show "spec_range_format h"
    using ne d2 by (simp add: spec_range_format_def Let_def h t1 r1)
qed

lemma digit_value_nonneg: "is_digit c \<Longrightarrow> 0 \<le> digit_value c"
  by (auto simp: is_digit_def digit_value_def)

lemma foldl_digits_nonneg:
  "list_all is_digit ds \<Longrightarrow> 0 \<le> acc
     \<Longrightarrow> 0 \<le> foldl (\<lambda>acc c. 10 * acc + digit_value c) acc ds"
proof (induction ds arbitrary: acc)
  case Nil
  then show ?case by simp
next
  case (Cons d ds)
  then have "0 \<le> 10 * acc + digit_value d" using digit_value_nonneg [of d] by simp
  with Cons show ?case by simp
qed

lemma digits_value_nonneg: "list_all is_digit ds \<Longrightarrow> 0 \<le> digits_value ds"
  by (simp add: digits_value_def foldl_digits_nonneg)

lemma py_int_ok: "length ds \<le> 4300 \<Longrightarrow> py_int ds = Inr (digits_value ds)"
  by (simp add: py_int_def INT_MAX_STR_DIGITS_def)

lemma py_int_raises: "4300 < length ds \<Longrightarrow> \<exists>msg. py_int ds = Inl (ValueError msg)"
  by (simp add: py_int_def INT_MAX_STR_DIGITS_def)

subsection \<open>The handler\<close>

lemma range_file_missing:
  "files st path = None
     \<Longrightarrow> range_file st request path media_type = Inl (HTTPException 404 ''Not found'')"
  by (simp add: range_file_def)

lemma range_file_no_header:
  "files st path = Some file_bytes \<Longrightarrow> headers request ''range'' = None
     \<Longrightarrow> range_file st request path media_type = Inr (FileResponse path media_type)"
  by (simp add: range_file_def)

lemma range_file_no_match:
  "files st path = Some file_bytes \<Longrightarrow> headers request ''range'' = Some h
     \<Longrightarrow> match_range h = None
     \<Longrightarrow> range_file st request path media_type = Inr (FileResponse path media_type)"
  by (simp add: range_file_def Let_def)

lemma range_file_match:
  assumes "files st path = Some file_bytes" and "headers request ''range'' = Some h"
    and "match_range h = Some (g1, g2)"
    and "length g1 \<le> 4300" and "length g2 \<le> 4300"
  shows "range_file st request path media_type =
     (let file_size = int (length file_bytes);
          start = digits_value g1;
          end1 = min (if g2 \<noteq> [] then digits_value g2 else file_size - 1) (file_size - 1);
          len = end1 - start + 1
      in Inr (StreamingResponse (iterfile (max_offset st) file_bytes start len) 206
            [(''Content-Range'',
                ''bytes '' @ str_int start @ ''-'' @ str_int end1 @ ''/'' @ str_int file_size),
             (''Accept-Ranges'', ''bytes''),
             (''Content-Length'', str_int len)]
            media_type))"
  using assms(1-3) match_range_nonempty [OF assms(3)] py_int_ok [OF assms(4)] py_int_ok [OF assms(5)]
  by (simp add: range_file_def Let_def)

lemma range_file_value_error:
  assumes "files st path = Some file_bytes" and "headers request ''range'' = Some h"
    and "match_range h = Some (g1, g2)"
    and "4300 < length g1 \<or> 4300 < length g2"
  shows "\<exists>msg. range_file st request path media_type = Inl (ValueError msg)"
proof (cases "4300 < length g1")
  case True
  from py_int_raises [OF True] obtain msg where "py_int g1 = Inl (ValueError msg)" by blast
  with assms(1-3) match_range_nonempty [OF assms(3)] show ?thesis
    by (simp add: range_file_def Let_def)
next
  case False
  with assms(4) have g2: "4300 < length g2" by simp
  then have ne: "g2 \<noteq> []" by auto
  from py_int_raises [OF g2] obtain msg where "py_int g2 = Inl (ValueError msg)" by blast
  moreover from False have "py_int g1 = Inr (digits_value g1)" by (simp add: py_int_ok)
  ultimately show ?thesis
    using assms(1-3) match_range_nonempty [OF assms(3)] ne
    by (simp add: range_file_def Let_def)
qed

lemma nines_digits [simp]: "list_all is_digit (nines n)"
  by (simp add: nines_def list_all_iff is_digit_def)

lemma length_nines [simp]: "length (nines n) = n"
  by (simp add: nines_def)

lemma nines_nonempty: "0 < n \<Longrightarrow> nines n \<noteq> []"
  by (cases n) (simp_all add: nines_def)

lemma match_range_nines_start:
  "0 < n \<Longrightarrow> match_range (''bytes='' @ nines n @ ''-'') = Some (nines n, [])"
  using match_range_shape [of "nines n" "[]" "[]"] by (simp add: nines_nonempty)

lemma match_range_nines_end:
  "match_range (''bytes=0-'' @ nines n) = Some (''0'', nines n)"
  using match_range_shape [of "''0''" "nines n" "[]"] by (simp add: is_digit_def)

lemma sample_storage_file:
  "files sample_storage ''abnormal_clips/clip_01.mp4'' = Some ''abcdefghij''"
  by (simp add: sample_storage_def)

lemma range_request_header: "headers (range_request h) ''range'' = Some h"
  by (simp add: range_request_def)

subsection \<open>The states of one request\<close>

text \<open>
  Claim C3, as stated, reads the format \<^verbatim>\<open>bytes=<start>-<end?>\<close> as the form of the
  whole header, promises 206 for every header of the format and the full-file response
  for every other header.  The handler does neither.  The pattern is anchored at the
  start only, so a header that goes on after the first range, such as the two-range
  request \<^verbatim>\<open>bytes=0-1,4-5\<close>, is not of the format and still gets 206, for its first
  range.  And a header of the format whose start has 4301 digits gets no response at
  all: \<^verbatim>\<open>int\<close> raises \<^verbatim>\<open>ValueError\<close>.
\<close>

theorem range_file_trailing_text_counterexample:
  "\<not> spec_range_format ''bytes=0-1,4-5''
   \<and> range_file sample_storage (range_request ''bytes=0-1,4-5'')
         ''abnormal_clips/clip_01.mp4'' ''video/mp4''
       = Inr (StreamingResponse (Inr [''ab'']) 206
           [(''Content-Range'', ''bytes 0-1/10''), (''Accept-Ranges'', ''bytes''),
            (''Content-Length'', ''2'')] ''video/mp4'')
   \<and> status_code (StreamingResponse (Inr [''ab'']) 206
           [(''Content-Range'', ''bytes 0-1/10''), (''Accept-Ranges'', ''bytes''),
            (''Content-Length'', ''2'')] ''video/mp4'') \<noteq> 200
   \<and> spec_range_format (''bytes='' @ nines 4301 @ ''-'')
   \<and> (\<exists>msg. range_file sample_storage (range_request (''bytes='' @ nines 4301 @ ''-''))
         ''abnormal_clips/clip_01.mp4'' ''video/mp4'' = Inl (ValueError msg))"
proof -
  have a: "\<not> spec_range_format ''bytes=0-1,4-5''" by code_simp
  have b: "range_file sample_storage (range_request ''bytes=0-1,4-5'')
         ''abnormal_clips/clip_01.mp4'' ''video/mp4''
       = Inr (StreamingResponse (Inr [''ab'']) 206
           [(''Content-Range'', ''bytes 0-1/10''), (''Accept-Ranges'', ''bytes''),
            (''Content-Length'', ''2'')] ''video/mp4'')"
    by code_simp
  have c: "status_code (StreamingResponse (Inr [''ab'']) 206
           [(''Content-Range'', ''bytes 0-1/10''), (''Accept-Ranges'', ''bytes''),
            (''Content-Length'', ''2'')] ''video/mp4'') \<noteq> 200"
    by simp
  have pos: "0 < (4301 :: nat)" by simp
  have "\<exists>ds1 ds2. ''bytes='' @ nines 4301 @ ''-'' = ''bytes='' @ ds1 @ ''-'' @ ds2
      \<and> ds1 \<noteq> [] \<and> list_all is_digit ds1 \<and> list_all is_digit ds2"
  proof (intro exI conjI)
    show "''bytes='' @ nines 4301 @ ''-'' = ''bytes='' @ nines 4301 @ ''-'' @ []" by simp
    show "nines 4301 \<noteq> []" by (rule nines_nonempty [OF pos])
  qed simp_all
  then have d: "spec_range_format (''bytes='' @ nines 4301 @ ''-'')"
    by (simp only: spec_range_format_iff)
  note m' = match_range_nines_start [OF pos]
  have "4300 < length (nines 4301) \<or> 4300 < length ([] :: string)" by simp
  from range_file_value_error [OF sample_storage_file range_request_header m' this]
  have e: "\<exists>msg. range_file sample_storage
        (range_request (''bytes='' @ nines 4301 @ ''-''))
         ''abnormal_clips/clip_01.mp4'' ''video/mp4'' = Inl (ValueError msg)" .
  from a b c d e show ?thesis by blast
qed

text \<open>
  Claim C3, amended.  A missing file gives 404 whatever the headers.  An existing file with
  no Range header gives the full-file response, status 200.  A Range header that begins
  with \<^verbatim>\<open>bytes=\<close>, a run of digits, a hyphen and a (possibly empty) run of digits,
  whatever follows, gives a streaming response with status 206 when neither run has more
  than 4300 digits, and ends the request with \<^verbatim>\<open>ValueError\<close> when one of them has.  Any
  other Range header gives the full-file response, status 200.  The headers that are
  exactly of the format \<^verbatim>\<open>bytes=<start>-<end?>\<close> are among those that begin with it.
\<close>

theorem range_file_states:
  "(files st path = None \<longrightarrow>
      range_file st request path media_type = Inl (HTTPException 404 ''Not found''))
   \<and> (files st path \<noteq> None \<and> headers request ''range'' = None \<longrightarrow>
        (\<exists>resp. range_file st request path media_type = Inr resp
           \<and> resp = FileResponse path media_type \<and> status_code resp = 200))
   \<and> (files st path \<noteq> None \<and> headers request ''range'' = Some h
        \<and> h = ''bytes='' @ ds1 @ ''-'' @ ds2 @ rest \<and> ds1 \<noteq> []
        \<and> list_all is_digit ds1 \<and> list_all is_digit ds2 \<and> takeWhile is_digit rest = []
        \<and> length ds1 \<le> 4300 \<and> length ds2 \<le> 4300 \<longrightarrow>
        (\<exists>resp content hdrs. range_file st request path media_type = Inr resp
           \<and> resp = StreamingResponse content 206 hdrs media_type \<and> status_code resp = 206))
   \<and> (files st path \<noteq> None \<and> headers request ''range'' = Some h
        \<and> h = ''bytes='' @ ds1 @ ''-'' @ ds2 @ rest \<and> ds1 \<noteq> []
        \<and> list_all is_digit ds1 \<and> list_all is_digit ds2 \<and> takeWhile is_digit rest = []
        \<and> (4300 < length ds1 \<or> 4300 < length ds2) \<longrightarrow>
        (\<exists>msg. range_file st request path media_type = Inl (ValueError msg)))
   \<and> (files st path \<noteq> None \<and> headers request ''range'' = Some h
        \<and> \<not> (\<exists>ds1 ds2 rest. h = ''bytes='' @ ds1 @ ''-'' @ ds2 @ rest \<and> ds1 \<noteq> []
                \<and> list_all is_digit ds1 \<and> list_all is_digit ds2) \<longrightarrow>
        (\<exists>resp. range_file st request path media_type = Inr resp
           \<and> resp = FileResponse path media_type \<and> status_code resp = 200))
   \<and> (spec_range_format h \<longrightarrow>
        (\<exists>ds1 ds2. h = ''bytes='' @ ds1 @ ''-'' @ ds2 @ [] \<and> ds1 \<noteq> []
           \<and> list_all is_digit ds1 \<and> list_all is_digit ds2))"
proof (intro conjI impI)
  assume "files st path = None"
  then show "range_file st request path media_type = Inl (HTTPException 404 ''Not found'')"
    by (rule range_file_missing)
next
  assume "files st path \<noteq> None \<and> headers request ''range'' = None"
  then obtain file_bytes where "files st path = Some file_bytes" "headers request ''range'' = None"
    by auto
  then have "range_file st request path media_type = Inr (FileResponse path media_type)"
    by (rule range_file_no_header)
  then show "\<exists>resp. range_file st request path media_type = Inr resp
           \<and> resp = FileResponse path media_type \<and> status_code resp = 200"
    by simp
next
  assume a: "files st path \<noteq> None \<and> headers request ''range'' = Some h
        \<and> h = ''bytes='' @ ds1 @ ''-'' @ ds2 @ rest \<and> ds1 \<noteq> []
        \<and> list_all is_digit ds1 \<and> list_all is_digit ds2 \<and> takeWhile is_digit rest = []
        \<and> length ds1 \<le> 4300 \<and> length ds2 \<le> 4300"
  then obtain file_bytes where f: "files st path = Some file_bytes" by auto
  from a have r: "headers request ''range'' = Some h" by simp
  from a have h: "h = ''bytes='' @ ds1 @ ''-'' @ ds2 @ rest" and ne: "ds1 \<noteq> []"
    and d1: "list_all is_digit ds1" and d2: "list_all is_digit ds2"
    and tw: "takeWhile is_digit rest = []"
    by blast+
  have m: "match_range h = Some (ds1, ds2)"
    unfolding h by (rule match_range_shape [OF ne d1 d2 tw])
  from a have l1: "length ds1 \<le> 4300" and l2: "length ds2 \<le> 4300" by blast+
  show "\<exists>resp content hdrs. range_file st request path media_type = Inr resp
           \<and> resp = StreamingResponse content 206 hdrs media_type \<and> status_code resp = 206"
    unfolding range_file_match [where st = st and path = path, OF f r m l1 l2] Let_def
    by simp
next
  assume a: "files st path \<noteq> None \<and> headers request ''range'' = Some h
        \<and> h = ''bytes='' @ ds1 @ ''-'' @ ds2 @ rest \<and> ds1 \<noteq> []
        \<and> list_all is_digit ds1 \<and> list_all is_digit ds2 \<and> takeWhile is_digit rest = []
        \<and> (4300 < length ds1 \<or> 4300 < length ds2)"
  then obtain file_bytes where f: "files st path = Some file_bytes" by auto
  from a have r: "headers request ''range'' = Some h" by simp
  from a have h: "h = ''bytes='' @ ds1 @ ''-'' @ ds2 @ rest" and ne: "ds1 \<noteq> []"
    and d1: "list_all is_digit ds1" and d2: "list_all is_digit ds2"
    and tw: "takeWhile is_digit rest = []"
    by blast+
  have m: "match_range h = Some (ds1, ds2)"
    unfolding h by (rule match_range_shape [OF ne d1 d2 tw])
  from a have l: "4300 < length ds1 \<or> 4300 < length ds2" by blast
  show "\<exists>msg. range_file st request path media_type = Inl (ValueError msg)"
    by (rule range_file_value_error [where st = st and path = path, OF f r m l])
next
  assume a: "files st path \<noteq> None \<and> headers request ''range'' = Some h
        \<and> \<not> (\<exists>ds1 ds2 rest. h = ''bytes='' @ ds1 @ ''-'' @ ds2 @ rest \<and> ds1 \<noteq> []
                \<and> list_all is_digit ds1 \<and> list_all is_digit ds2)"
  then obtain file_bytes where f: "files st path = Some file_bytes" by auto
  from a have r: "headers request ''range'' = Some h" by simp
  from a have m: "match_range h = None" using match_range_prefix_iff [of h] by blast
  have "range_file st request path media_type = Inr (FileResponse path media_type)"
    by (rule range_file_no_match [where st = st and path = path, OF f r m])
  then show "\<exists>resp. range_file st request path media_type = Inr resp
           \<and> resp = FileResponse path media_type \<and> status_code resp = 200"
    by simp
next
  assume "spec_range_format h"
  then show "\<exists>ds1 ds2. h = ''bytes='' @ ds1 @ ''-'' @ ds2 @ [] \<and> ds1 \<noteq> []
           \<and> list_all is_digit ds1 \<and> list_all is_digit ds2"
    by (simp add: spec_range_format_iff)
qed

theorem range_file_states_witness:
  "range_file (sample_storage\<lparr>files := Map.empty\<rparr>) (range_request ''bytes=0-99'')
       ''abnormal_clips/clip_01.mp4'' ''video/mp4'' = Inl (HTTPException 404 ''Not found'')
   \<and> range_file sample_storage \<lparr>headers = Map.empty\<rparr>
       ''abnormal_clips/clip_01.mp4'' ''video/mp4''
       = Inr (FileResponse ''abnormal_clips/clip_01.mp4'' ''video/mp4'')
   \<and> (\<exists>content hdrs.
        range_file sample_storage (range_request ''bytes=2-5,7-8'')
          ''abnormal_clips/clip_01.mp4'' ''video/mp4''
          = Inr (StreamingResponse content 206 hdrs ''video/mp4''))
   \<and> (\<exists>msg. range_file sample_storage (range_request (''bytes=0-'' @ nines 4301))
          ''abnormal_clips/clip_01.mp4'' ''video/mp4'' = Inl (ValueError msg))
   \<and> range_file sample_storage (range_request ''bytes=-5'')
       ''abnormal_clips/clip_01.mp4'' ''video/mp4''
       = Inr (FileResponse ''abnormal_clips/clip_01.mp4'' ''video/mp4'')
   \<and> spec_range_format ''bytes=2-5''"
proof -
  let ?p = "''abnormal_clips/clip_01.mp4''"
  let ?mt = "''video/mp4''"
  have ex: "files sample_storage ?p \<noteq> None" by (simp add: sample_storage_def)
  have a: "range_file (sample_storage\<lparr>files := Map.empty\<rparr>) (range_request ''bytes=0-99'') ?p ?mt
       = Inl (HTTPException 404 ''Not found'')"
    using range_file_states [of "sample_storage\<lparr>files := Map.empty\<rparr>" ?p
        "range_request ''bytes=0-99''" ?mt "''bytes=0-99''" "''0''" "''99''" "[]"]
    by simp
  have b: "range_file sample_storage \<lparr>headers = Map.empty\<rparr> ?p ?mt = Inr (FileResponse ?p ?mt)"
    using range_file_states [of sample_storage ?p "\<lparr>headers = Map.empty\<rparr>" ?mt
        "[]" "[]" "[]" "[]"] ex
    by simp
  have c: "\<exists>content hdrs. range_file sample_storage (range_request ''bytes=2-5,7-8'') ?p ?mt
          = Inr (StreamingResponse content 206 hdrs ?mt)"
    using range_file_states [of sample_storage ?p "range_request ''bytes=2-5,7-8''" ?mt
        "''bytes=2-5,7-8''" "''2''" "''5''" "'',7-8''"] ex
    by (auto simp: range_request_header is_digit_def)
  have "list_all is_digit ''0''" by (simp add: is_digit_def)
  then have d: "\<exists>msg. range_file sample_storage
        (range_request (''bytes=0-'' @ nines 4301)) ?p ?mt = Inl (ValueError msg)"
    using range_file_states [of sample_storage ?p
        "range_request (''bytes=0-'' @ nines 4301)" ?mt
        "''bytes=0-'' @ nines 4301" "''0''" "nines 4301" "[]"] ex
    by (auto simp: range_request_header)
  have none: "match_range ''bytes=-5'' = None" by code_simp
  have "\<not> (\<exists>ds1 ds2 rest. ''bytes=-5'' = ''bytes='' @ ds1 @ ''-'' @ ds2 @ rest \<and> ds1 \<noteq> []
                \<and> list_all is_digit ds1 \<and> list_all is_digit ds2)"
    using none match_range_prefix_iff [of "''bytes=-5''"] by blast
  then have e: "range_file sample_storage (range_request ''bytes=-5'') ?p ?mt
       = Inr (FileResponse ?p ?mt)"
    using range_file_states [of sample_storage ?p "range_request ''bytes=-5''" ?mt
        "''bytes=-5''" "[]" "[]" "[]"] ex
    by (auto simp: range_request_header)
  have f: "spec_range_format ''bytes=2-5''" by code_simp
  from a b c d e f show ?thesis by blast
qed

subsection \<open>The partial response\<close>

text \<open>
  Claim C4, as stated, promises the 206 response for every Range header the handler
  parses, with an end beyond the end of the file clamped.  For an end of 4301 digits the
  pattern matches and \<^verbatim>\<open>int\<close> raises \<^verbatim>\<open>ValueError\<close>: there is no response and no
  clamping.
\<close>

theorem range_file_long_end_counterexample:
  "match_range (''bytes=0-'' @ nines 4301) = Some (''0'', nines 4301)
   \<and> (\<exists>msg. range_file sample_storage (range_request (''bytes=0-'' @ nines 4301))
         ''abnormal_clips/clip_01.mp4'' ''video/mp4'' = Inl (ValueError msg))"
proof -
  note m = match_range_nines_end [of 4301]
  have "4300 < length ''0'' \<or> 4300 < length (nines 4301)" by simp
  from range_file_value_error [OF sample_storage_file range_request_header m this] m
  show ?thesis by blast
qed

text \<open>
  Claim C4, amended.  For an existing file and a Range header the handler parses, with a
  start and an end of at most 4300 digits each, the response is a streaming response
  with status 206 whose headers are \<^verbatim>\<open>Content-Range: bytes <start>-<end>/<file_size>\<close>,
  \<^verbatim>\<open>Accept-Ranges: bytes\<close> and \<^verbatim>\<open>Content-Length: <end-start+1>\<close>, where \<open>end\<close> is
  \<open>file_size - 1\<close> when the header omits it and is never above \<open>file_size - 1\<close>.  When
  \<open>start\<close> is an offset the seek accepts, the chunks of the body, put together, are the
  bytes of the file from offset \<open>start\<close> through \<open>end\<close>, and every chunk is non-empty and
  at most \<open>1024 * 1024\<close> bytes long.  When the seek refuses \<open>start\<close>, the generator
  raises before the first chunk.
\<close>

theorem range_file_partial_response:
  assumes "files st path = Some file_bytes"
    and "headers request ''range'' = Some h"
    and "match_range h = Some (g1, g2)"
    and "length g1 \<le> 4300" and "length g2 \<le> 4300"
    and "file_size = int (length file_bytes)"
    and "start = digits_value g1"
    and "end1 = (if g2 = [] then file_size - 1 else min (digits_value g2) (file_size - 1))"
  shows "\<exists>content.
      range_file st request path media_type =
        Inr (StreamingResponse content 206
          [(''Content-Range'',
              ''bytes '' @ str_int start @ ''-'' @ str_int end1 @ ''/'' @ str_int file_size),
           (''Accept-Ranges'', ''bytes''),
           (''Content-Length'', str_int (end1 - start + 1))]
          media_type)
      \<and> status_code (StreamingResponse content 206
          [(''Content-Range'',
              ''bytes '' @ str_int start @ ''-'' @ str_int end1 @ ''/'' @ str_int file_size),
           (''Accept-Ranges'', ''bytes''),
           (''Content-Length'', str_int (end1 - start + 1))]
          media_type) = 206
      \<and> 0 \<le> start \<and> end1 \<le> file_size - 1
      \<and> (start < 2 ^ 63 \<and> start \<le> max_offset st \<longrightarrow>
           (\<exists>chunks. content = Inr chunks
              \<and> concat chunks = take (nat (end1 - start + 1)) (drop (nat start) file_bytes)
              \<and> length (concat chunks) = nat (end1 - start + 1)
              \<and> (\<forall>c \<in> set chunks. c \<noteq> [] \<and> length c \<le> 1024 * 1024)))
      \<and> (2 ^ 63 \<le> start \<or> max_offset st < start \<longrightarrow> (\<exists>e. content = Inl e))"
proof -
  define content where
    "content = iterfile (max_offset st) file_bytes start (end1 - start + 1)"
  define chunks where "chunks = iterfile_loop file_bytes (nat start) (end1 - start + 1)"
  have e: "end1 = min (if g2 \<noteq> [] then digits_value g2 else file_size - 1) (file_size - 1)"
    using assms(8) by simp
  have resp: "range_file st request path media_type =
        Inr (StreamingResponse content 206
          [(''Content-Range'',
              ''bytes '' @ str_int start @ ''-'' @ str_int end1 @ ''/'' @ str_int file_size),
           (''Accept-Ranges'', ''bytes''),
           (''Content-Length'', str_int (end1 - start + 1))]
          media_type)"
    unfolding range_file_match [where st = st and path = path, OF assms(1-5)] Let_def
      content_def e assms(6,7)
    by (rule refl)
  have nonneg: "0 \<le> start"
    using match_range_groups [OF assms(3)] assms(7) by (simp add: digits_value_nonneg)
  have clamp: "end1 \<le> file_size - 1" using e by simp
  have body: "concat chunks = take (nat (end1 - start + 1)) (drop (nat start) file_bytes)"
    by (simp add: chunks_def iterfile_loop_concat)
  have "nat (end1 - start + 1) \<le> length file_bytes - nat start"
    using clamp nonneg assms(6) by linarith
  then have len: "length (concat chunks) = nat (end1 - start + 1)"
    unfolding body by simp
  have bounded: "\<forall>c \<in> set chunks. c \<noteq> [] \<and> length c \<le> 1024 * 1024"
    using iterfile_loop_bounded [of _ file_bytes "nat start" "end1 - start + 1"]
    by (auto simp: chunks_def)
  have ok: "start < 2 ^ 63 \<and> start \<le> max_offset st \<longrightarrow>
           (\<exists>chunks. content = Inr chunks
              \<and> concat chunks = take (nat (end1 - start + 1)) (drop (nat start) file_bytes)
              \<and> length (concat chunks) = nat (end1 - start + 1)
              \<and> (\<forall>c \<in> set chunks. c \<noteq> [] \<and> length c \<le> 1024 * 1024))"
  proof
    assume "start < 2 ^ 63 \<and> start \<le> max_offset st"
    then have "content = Inr chunks"
      by (simp add: content_def chunks_def iterfile_seek_ok)
    with body len bounded show "\<exists>chunks. content = Inr chunks
              \<and> concat chunks = take (nat (end1 - start + 1)) (drop (nat start) file_bytes)
              \<and> length (concat chunks) = nat (end1 - start + 1)
              \<and> (\<forall>c \<in> set chunks. c \<noteq> [] \<and> length c \<le> 1024 * 1024)"
      by blast
  qed
  have bad: "2 ^ 63 \<le> start \<or> max_offset st < start \<longrightarrow> (\<exists>e. content = Inl e)"
    unfolding content_def using iterfile_seek_fails by blast
  from resp nonneg clamp ok bad show ?thesis by (intro exI [of _ content]) simp
qed

theorem range_file_partial_response_witness:
  "range_file sample_storage (range_request ''bytes=2-50'')
       ''abnormal_clips/clip_01.mp4'' ''video/mp4''
     = Inr (StreamingResponse (Inr [''cdefghij'']) 206
         [(''Content-Range'', ''bytes 2-9/10''), (''Accept-Ranges'', ''bytes''),
          (''Content-Length'', ''8'')] ''video/mp4'')
   \<and> (2 :: int) < 2 ^ 63 \<and> (2 :: int) \<le> max_offset sample_storage"
proof -
  have m: "match_range ''bytes=2-50'' = Some (''2'', ''50'')" by code_simp
  have l: "length ''2'' \<le> 4300" "length ''50'' \<le> 4300" by simp_all
  have s: "(10 :: int) = int (length ''abcdefghij'')" by simp
  have st: "(2 :: int) = digits_value ''2''" by code_simp
  have en: "(9 :: int) = (if ''50'' = [] then 10 - 1 else min (digits_value ''50'') (10 - 1))"
    by code_simp
  have off: "(2 :: int) < 2 ^ 63" "(2 :: int) \<le> max_offset sample_storage"
    by (simp_all add: sample_storage_def)
  obtain content where
    "range_file sample_storage (range_request ''bytes=2-50'')
        ''abnormal_clips/clip_01.mp4'' ''video/mp4'' =
        Inr (StreamingResponse content 206
          [(''Content-Range'', ''bytes '' @ str_int 2 @ ''-'' @ str_int 9 @ ''/'' @ str_int 10),
           (''Accept-Ranges'', ''bytes''),
           (''Content-Length'', str_int (9 - 2 + 1))]
          ''video/mp4'')"
    and "\<exists>chunks. content = Inr chunks
          \<and> concat chunks = take (nat (9 - 2 + 1)) (drop (nat 2) ''abcdefghij'')"
    using range_file_partial_response [where st = sample_storage
        and path = "''abnormal_clips/clip_01.mp4''",
        OF sample_storage_file range_request_header m l s st en, of "''video/mp4''"] off
    by blast
  moreover have "range_file sample_storage (range_request ''bytes=2-50'')
       ''abnormal_clips/clip_01.mp4'' ''video/mp4''
     = Inr (StreamingResponse (Inr [''cdefghij'']) 206
         [(''Content-Range'', ''bytes 2-9/10''), (''Accept-Ranges'', ''bytes''),
          (''Content-Length'', ''8'')] ''video/mp4'')"
    by code_simp
  ultimately show ?thesis using off by simp
qed

subsection \<open>A start at or past the end of the file\<close>

text \<open>
  Claim C9, as stated, promises a 206 response with an empty streamed body for every
  parsed start at or past the end of the file.  A start of 4301 digits is past the end of
  every file, and \<^verbatim>\<open>int\<close> raises \<^verbatim>\<open>ValueError\<close> on it: there is no response.  A
  start of \<open>2 ^ 63\<close> gets the 206 response, but its generator raises at the seek instead
  of ending an empty stream.
\<close>

theorem range_file_long_start_counterexample:
  "match_range (''bytes='' @ nines 4301 @ ''-'') = Some (nines 4301, [])
   \<and> (\<exists>msg. range_file sample_storage (range_request (''bytes='' @ nines 4301 @ ''-''))
         ''abnormal_clips/clip_01.mp4'' ''video/mp4'' = Inl (ValueError msg))
   \<and> range_file sample_storage (range_request ''bytes=9223372036854775808-'')
         ''abnormal_clips/clip_01.mp4'' ''video/mp4''
       = Inr (StreamingResponse (Inl (ValueError ''cannot fit int into an offset-sized integer''))
           206
           [(''Content-Range'', ''bytes 9223372036854775808-9/10''), (''Accept-Ranges'', ''bytes''),
            (''Content-Length'', ''-9223372036854775798'')] ''video/mp4'')"
proof -
  have pos: "0 < (4301 :: nat)" by simp
  note m = match_range_nines_start [OF pos]
  have "4300 < length (nines 4301) \<or> 4300 < length ([] :: string)" by simp
  from range_file_value_error [OF sample_storage_file range_request_header m this]
  have e: "\<exists>msg. range_file sample_storage
        (range_request (''bytes='' @ nines 4301 @ ''-''))
         ''abnormal_clips/clip_01.mp4'' ''video/mp4'' = Inl (ValueError msg)" .
  have s: "range_file sample_storage (range_request ''bytes=9223372036854775808-'')
         ''abnormal_clips/clip_01.mp4'' ''video/mp4''
       = Inr (StreamingResponse (Inl (ValueError ''cannot fit int into an offset-sized integer''))
           206
           [(''Content-Range'', ''bytes 9223372036854775808-9/10''), (''Accept-Ranges'', ''bytes''),
            (''Content-Length'', ''-9223372036854775798'')] ''video/mp4'')"
    by code_simp
  from m e s show ?thesis by blast
qed

text \<open>
  Claim C9, amended.  When the parsed start, of at most 4300 digits like the end, is at or
  past the end of an existing file, the handler still answers 206: the start is not
  checked against the size, the end is at most \<open>file_size - 1\<close> and so below the start,
  and the declared Content-Length \<open>end - start + 1\<close> is zero or negative.  No byte is
  streamed: when the seek accepts the start the body has no chunk, and when it does not
  the generator raises at the seek.  With the end omitted, the end is \<open>file_size - 1\<close>.
\<close>

theorem range_file_start_past_eof:
  assumes "files st path = Some file_bytes"
    and "headers request ''range'' = Some h"
    and "match_range h = Some (g1, g2)"
    and "length g1 \<le> 4300" and "length g2 \<le> 4300"
    and "file_size = int (length file_bytes)"
    and "start = digits_value g1"
    and "file_size \<le> start"
  shows "\<exists>end1 content.
      range_file st request path media_type =
        Inr (StreamingResponse content 206
          [(''Content-Range'',
              ''bytes '' @ str_int start @ ''-'' @ str_int end1 @ ''/'' @ str_int file_size),
           (''Accept-Ranges'', ''bytes''),
           (''Content-Length'', str_int (end1 - start + 1))]
          media_type)
      \<and> end1 = min (if g2 = [] then file_size - 1 else digits_value g2) (file_size - 1)
      \<and> end1 \<le> file_size - 1 \<and> end1 < start \<and> end1 - start + 1 \<le> 0
      \<and> (start < 2 ^ 63 \<and> start \<le> max_offset st \<longrightarrow> content = Inr [])
      \<and> (2 ^ 63 \<le> start \<or> max_offset st < start \<longrightarrow> (\<exists>e. content = Inl e))"
proof -
  define end1 where
    "end1 = min (if g2 \<noteq> [] then digits_value g2 else file_size - 1) (file_size - 1)"
  define content where
    "content = iterfile (max_offset st) file_bytes start (end1 - start + 1)"
  have clamp: "end1 \<le> file_size - 1" by (simp add: end1_def)
  with assms(8) have below: "end1 < start" and len: "end1 - start + 1 \<le> 0" by simp_all
  have resp: "range_file st request path media_type =
        Inr (StreamingResponse content 206
          [(''Content-Range'',
              ''bytes '' @ str_int start @ ''-'' @ str_int end1 @ ''/'' @ str_int file_size),
           (''Accept-Ranges'', ''bytes''),
           (''Content-Length'', str_int (end1 - start + 1))]
          media_type)"
    unfolding range_file_match [where st = st and path = path, OF assms(1-5)] Let_def
      content_def end1_def assms(6,7)
    by (rule refl)
  have ok: "start < 2 ^ 63 \<and> start \<le> max_offset st \<longrightarrow> content = Inr []"
    using len by (simp add: content_def iterfile_seek_ok iterfile_loop_nonpositive)
  have bad: "2 ^ 63 \<le> start \<or> max_offset st < start \<longrightarrow> (\<exists>e. content = Inl e)"
    unfolding content_def using iterfile_seek_fails by blast
  have "end1 = min (if g2 = [] then file_size - 1 else digits_value g2) (file_size - 1)"
    by (simp add: end1_def)
  with resp clamp below len ok bad show ?thesis by blast
qed

theorem range_file_start_past_eof_witness:
  "range_file sample_storage (range_request ''bytes=10-'')
       ''abnormal_clips/clip_01.mp4'' ''video/mp4''
     = Inr (StreamingResponse (Inr []) 206
         [(''Content-Range'', ''bytes 10-9/10''), (''Accept-Ranges'', ''bytes''),
          (''Content-Length'', ''0'')] ''video/mp4'')
   \<and> (10 :: int) \<le> digits_value ''10''
   \<and> (10 :: int) < 2 ^ 63 \<and> (10 :: int) \<le> max_offset sample_storage"
proof -
  have m: "match_range ''bytes=10-'' = Some (''10'', [])" by code_simp
  have l: "length ''10'' \<le> 4300" "length ([] :: string) \<le> 4300" by simp_all
  have s: "(10 :: int) = int (length ''abcdefghij'')" by simp
  have st: "(10 :: int) = digits_value ''10''" by code_simp
  have ge: "(10 :: int) \<le> 10" by simp
  have off: "(10 :: int) < 2 ^ 63" "(10 :: int) \<le> max_offset sample_storage"
    by (simp_all add: sample_storage_def)
  obtain end1 content where resp: "range_file sample_storage (range_request ''bytes=10-'')
        ''abnormal_clips/clip_01.mp4'' ''video/mp4'' =
        Inr (StreamingResponse content 206
          [(''Content-Range'', ''bytes '' @ str_int 10 @ ''-'' @ str_int end1 @ ''/'' @ str_int 10),
           (''Accept-Ranges'', ''bytes''),
           (''Content-Length'', str_int (end1 - 10 + 1))]
          ''video/mp4'')"
    and e: "end1 = min (if ([] :: string) = [] then 10 - 1 else digits_value []) (10 - 1)"
    and c: "(10 :: int) < 2 ^ 63 \<and> (10 :: int) \<le> max_offset sample_storage \<longrightarrow> content = Inr []"
    using range_file_start_past_eof [where st = sample_storage
        and path = "''abnormal_clips/clip_01.mp4''",
        OF sample_storage_file range_request_header m l s st ge, of "''video/mp4''"]
    by blast
  from e have e9: "end1 = 9" by simp
  from c off have c0: "content = Inr []" by blast
  have s10: "str_int 10 = ''10''" by code_simp
  have s9: "str_int 9 = ''9''" by code_simp
  have s0: "str_int 0 = ''0''" by code_simp
  from resp st off show ?thesis unfolding e9 c0 by (simp add: s10 s9 s0)
qed

section \<open>Properties of the lifecycle manager and the processing run\<close>

subsection \<open>Deleting\<close>

lemma os_remove_ok:
  assumes "os_remove path d f w = (Inr u, w')"
  shows "w' = w\<lparr>dirs := (dirs w)(d := filter (\<lambda>(n, k). n \<noteq> f) (dirs w d)),
                 op_log := op_log w @ [Remove d f]\<rparr>"
  using assms by (auto simp: os_remove_def split: option.splits node.splits)

lemma os_remove_fails:
  assumes "os_remove path d f w = (Inl e, w')"
  shows "w' = w\<lparr>op_log := op_log w @ [RemoveFailed path]\<rparr> \<and> e = OSError path
    \<and> map_of (dirs w d) f \<noteq> Some Deletable"
  using assms by (auto simp: os_remove_def split: option.splits node.splits)

lemma os_remove_deletable:
  "map_of (dirs w d) f = Some Deletable \<Longrightarrow> \<exists>w'. os_remove path d f w = (Inr (), w')"
  by (simp add: os_remove_def)

lemma filter_filter_names:
  "filter (\<lambda>(n, k). n \<notin> set fs) (filter (\<lambda>(n, k). n \<noteq> f) es)
     = filter (\<lambda>(n, k). n \<notin> set (f # fs)) es"
  by (induction es) auto

lemma remove_files_ok:
  "remove_files d fs w = (Inr u, w')
     \<Longrightarrow> dirs w' = (dirs w)(d := filter (\<lambda>(n, k). n \<notin> set fs) (dirs w d))
         \<and> uploaded w' = uploaded w \<and> op_log w' = op_log w @ map (Remove d) fs"
proof (induction fs arbitrary: w)
  case Nil
  then show ?case by simp
next
  case (Cons f fs)
  from Cons.prems obtain w1 where r: "os_remove (d @ ''/'' @ f) d f w = (Inr (), w1)"
    and rest: "remove_files d fs w1 = (Inr u, w')"
    by (auto split: prod.splits sum.splits)
  note w1 = os_remove_ok [OF r]
  from Cons.IH [OF rest] have
    d: "dirs w' = (dirs w1)(d := filter (\<lambda>(n, k). n \<notin> set fs) (dirs w1 d))"
    and u: "uploaded w' = uploaded w1" and l: "op_log w' = op_log w1 @ map (Remove d) fs"
    by auto
  have w1d: "dirs w1 = (dirs w)(d := filter (\<lambda>(n, k). n \<noteq> f) (dirs w d))"
    by (simp add: w1)
  have "dirs w' = (dirs w)(d := filter (\<lambda>(n, k). n \<notin> set fs)
                                 (filter (\<lambda>(n, k). n \<noteq> f) (dirs w d)))"
    unfolding d w1d by simp
  then have "dirs w' = (dirs w)(d := filter (\<lambda>(n, k). n \<notin> set (f # fs)) (dirs w d))"
    by (simp only: filter_filter_names)
  moreover have "uploaded w' = uploaded w" using u by (simp add: w1)
  moreover have "op_log w' = op_log w @ map (Remove d) (f # fs)" using l by (simp add: w1)
  ultimately show ?case by blast
qed

lemma only_removed_refl: "only_removed w w"
  by (simp add: only_removed_def)

lemma only_removed_trans: "only_removed w w1 \<Longrightarrow> only_removed w1 w2 \<Longrightarrow> only_removed w w2"
proof -
  assume a: "only_removed w w1" and b: "only_removed w1 w2"
  from a obtain r1 where r1: "op_log w1 = op_log w @ r1" "\<forall>op \<in> set r1. is_remove op"
    by (auto simp: only_removed_def)
  from b obtain r2 where r2: "op_log w2 = op_log w1 @ r2" "\<forall>op \<in> set r2. is_remove op"
    by (auto simp: only_removed_def)
  have "op_log w2 = op_log w @ (r1 @ r2)" "\<forall>op \<in> set (r1 @ r2). is_remove op"
    using r1 r2 by auto
  then have "\<exists>removes. op_log w2 = op_log w @ removes \<and> (\<forall>op \<in> set removes. is_remove op)"
    by blast
  moreover have "\<forall>d. set (dirs w2 d) \<subseteq> set (dirs w d)"
    using a b unfolding only_removed_def by blast
  moreover have "uploaded w2 = uploaded w"
    using a b by (simp add: only_removed_def)
  ultimately show ?thesis by (simp add: only_removed_def)
qed

lemma os_remove_only_removed: "os_remove path d f w = (r, w') \<Longrightarrow> only_removed w w'"
proof (cases r)
  case (Inl e)
  assume "os_remove path d f w = (r, w')"
  with Inl have w': "w' = w\<lparr>op_log := op_log w @ [RemoveFailed path]\<rparr>"
    using os_remove_fails by blast
  have "\<exists>removes. op_log w' = op_log w @ removes \<and> (\<forall>op \<in> set removes. is_remove op)"
  proof (intro exI conjI)
    show "op_log w' = op_log w @ [RemoveFailed path]" by (simp add: w')
    show "\<forall>op \<in> set [RemoveFailed path]. is_remove op" by simp
  qed
  moreover have "\<forall>d'. set (dirs w' d') \<subseteq> set (dirs w d')" by (simp add: w')
  moreover have "uploaded w' = uploaded w" by (simp add: w')
  ultimately show ?thesis by (simp add: only_removed_def)
next
  case (Inr u)
  assume "os_remove path d f w = (r, w')"
  with Inr have w': "w' = w\<lparr>dirs := (dirs w)(d := filter (\<lambda>(n, k). n \<noteq> f) (dirs w d)),
                 op_log := op_log w @ [Remove d f]\<rparr>"
    using os_remove_ok by blast
  have "\<exists>removes. op_log w' = op_log w @ removes \<and> (\<forall>op \<in> set removes. is_remove op)"
  proof (intro exI conjI)
    show "op_log w' = op_log w @ [Remove d f]" by (simp add: w')
    show "\<forall>op \<in> set [Remove d f]. is_remove op" by simp
  qed
  moreover have "\<forall>d'. set (dirs w' d') \<subseteq> set (dirs w d')" by (auto simp: w')
  moreover have "uploaded w' = uploaded w" by (simp add: w')
  ultimately show ?thesis by (simp add: only_removed_def)
qed

lemma remove_files_only_removed: "remove_files d fs w = (r, w') \<Longrightarrow> only_removed w w'"
proof (induction fs arbitrary: w)
  case Nil
  then show ?case by (simp add: only_removed_refl)
next
  case (Cons f fs)
  obtain r1 w1 where r1: "os_remove (d @ ''/'' @ f) d f w = (r1, w1)"
    by (cases "os_remove (d @ ''/'' @ f) d f w")
  note step = os_remove_only_removed [OF r1]
  show ?case
  proof (cases r1)
    case (Inl e)
    with Cons.prems r1 have "w' = w1" by simp
    with step show ?thesis by simp
  next
    case (Inr u)
    with Cons.prems r1 have "remove_files d fs w1 = (r, w')" by simp
    from only_removed_trans [OF step Cons.IH [OF this]] show ?thesis .
  qed
qed

lemma sweep_dirs_only_removed: "sweep_dirs ds w = (r, w') \<Longrightarrow> only_removed w w'"
proof (induction ds arbitrary: w)
  case Nil
  then show ?case by (simp add: only_removed_refl)
next
  case (Cons d ds)
  obtain r1 w1 where r1: "remove_files d (os_listdir w d) w = (r1, w1)"
    by (cases "remove_files d (os_listdir w d) w")
  note step = remove_files_only_removed [OF r1]
  show ?case
  proof (cases r1)
    case (Inl e)
    with Cons.prems r1 have "w' = w1" by simp
    with step show ?thesis by simp
  next
    case (Inr u)
    with Cons.prems r1 have "sweep_dirs ds w1 = (r, w')" by simp
    from only_removed_trans [OF step Cons.IH [OF this]] show ?thesis .
  qed
qed

lemma remove_run_files_only_removed:
  "remove_run_files key fs w = (r, w') \<Longrightarrow> only_removed w w'"
proof (induction fs arbitrary: w)
  case Nil
  then show ?case by (simp add: only_removed_refl)
next
  case (Cons f fs)
  show ?case
  proof (cases "startswith f (''processed_'' @ key) \<or> startswith f (''combined_'' @ key)")
    case False
    with Cons.prems have "remove_run_files key fs w = (r, w')" by simp
    from Cons.IH [OF this] show ?thesis .
  next
    case True
    obtain r1 w1 where r1: "os_remove f CWD f w = (r1, w1)" by (cases "os_remove f CWD f w")
    note step = os_remove_only_removed [OF r1]
    show ?thesis
    proof (cases r1)
      case (Inl e)
      with Cons.prems r1 True have "w' = w1" by simp
      with step show ?thesis by simp
    next
      case (Inr u)
      with Cons.prems r1 True have "remove_run_files key fs w1 = (r, w')" by simp
      from only_removed_trans [OF step Cons.IH [OF this]] show ?thesis .
    qed
  qed
qed

lemma clean_dirs_only_removed: "clean_dirs key w = (r, w') \<Longrightarrow> only_removed w w'"
proof -
  assume c: "clean_dirs key w = (r, w')"
  obtain r1 w1 where r1: "sweep_dirs [CLIP_DIR, FRAME_DIR, GROUND_TRUTH] w = (r1, w1)"
    by (cases "sweep_dirs [CLIP_DIR, FRAME_DIR, GROUND_TRUTH] w")
  note step = sweep_dirs_only_removed [OF r1]
  show ?thesis
  proof (cases r1)
    case (Inl e)
    with c r1 have "w' = w1" by (simp add: clean_dirs_def)
    with step show ?thesis by simp
  next
    case (Inr u)
    with c r1 have "remove_run_files key (os_listdir w1 CWD) w1 = (r, w')"
      by (simp add: clean_dirs_def)
    from only_removed_trans [OF step remove_run_files_only_removed [OF this]] show ?thesis .
  qed
qed

subsection \<open>What a completed sweep leaves\<close>

lemma remove_files_listing_empty:
  "remove_files d (os_listdir w d) w = (Inr u, w')
     \<Longrightarrow> dirs w' d = [] \<and> (\<forall>d'. d' \<noteq> d \<longrightarrow> dirs w' d' = dirs w d')"
proof -
  assume "remove_files d (os_listdir w d) w = (Inr u, w')"
  from remove_files_ok [OF this]
  have d: "dirs w' = (dirs w)(d := filter (\<lambda>(n, k). n \<notin> set (os_listdir w d)) (dirs w d))"
    by blast
  have "filter (\<lambda>(n, k). n \<notin> set (map fst es)) es = []" for es :: "(string \<times> node) list"
    by (force simp: filter_empty_conv)
  then show ?thesis by (simp add: d os_listdir_def)
qed

lemma sweep_dirs_empty:
  "sweep_dirs ds w = (Inr u, w') \<Longrightarrow> \<forall>d \<in> set ds. dirs w' d = []"
proof (induction ds arbitrary: w)
  case Nil
  then show ?case by simp
next
  case (Cons d ds)
  from Cons.prems obtain w1 where r: "remove_files d (os_listdir w d) w = (Inr (), w1)"
    and rest: "sweep_dirs ds w1 = (Inr u, w')"
    by (auto split: prod.splits sum.splits)
  from remove_files_listing_empty [OF r] have "dirs w1 d = []" by blast
  moreover have "set (dirs w' d) \<subseteq> set (dirs w1 d)"
    using sweep_dirs_only_removed [OF rest] by (simp add: only_removed_def)
  ultimately have "dirs w' d = []" by simp
  with Cons.IH [OF rest] show ?case by simp
qed

lemma remove_run_files_ok:
  "remove_run_files key fs w = (Inr u, w')
     \<Longrightarrow> dirs w' = (dirs w)(CWD := filter (\<lambda>(n, k). \<not> (n \<in> set fs \<and>
            (startswith n (''processed_'' @ key) \<or> startswith n (''combined_'' @ key))))
          (dirs w CWD))"
proof (induction fs arbitrary: w)
  case Nil
  then show ?case by simp
next
  case (Cons f fs)
  let ?m = "\<lambda>n. startswith n (''processed_'' @ key) \<or> startswith n (''combined_'' @ key)"
  show ?case
  proof (cases "?m f")
    case False
    with Cons.prems have "remove_run_files key fs w = (Inr u, w')" by simp
    from Cons.IH [OF this] have
      "dirs w' = (dirs w)(CWD := filter (\<lambda>(n, k). \<not> (n \<in> set fs \<and> ?m n)) (dirs w CWD))" .
    moreover have "(\<lambda>(n, k). \<not> (n \<in> set fs \<and> ?m n)) = (\<lambda>(n :: string, k :: node). \<not> (n \<in> set (f # fs) \<and> ?m n))"
      using False by auto
    ultimately show ?thesis by simp
  next
    case True
    with Cons.prems obtain w1 where r: "os_remove f CWD f w = (Inr (), w1)"
      and rest: "remove_run_files key fs w1 = (Inr u, w')"
      by (auto split: prod.splits sum.splits)
    note w1 = os_remove_ok [OF r]
    from Cons.IH [OF rest] have
      d: "dirs w' = (dirs w1)(CWD := filter (\<lambda>(n, k). \<not> (n \<in> set fs \<and> ?m n)) (dirs w1 CWD))" .
    have ff: "filter (\<lambda>(n, k). \<not> (n \<in> set fs \<and> ?m n)) (filter (\<lambda>(n, k). n \<noteq> f) es)
            = filter (\<lambda>(n, k). \<not> (n \<in> set (f # fs) \<and> ?m n)) es" for es :: "(string \<times> node) list"
      using True by (induction es) auto
    have w1d: "dirs w1 = (dirs w)(CWD := filter (\<lambda>(n, k). n \<noteq> f) (dirs w CWD))"
      by (simp add: w1)
    have "dirs w' = (dirs w)(CWD := filter (\<lambda>(n, k). \<not> (n \<in> set fs \<and> ?m n))
                                     (filter (\<lambda>(n, k). n \<noteq> f) (dirs w CWD)))"
      unfolding d w1d by simp
    then show ?thesis by (simp only: ff)
  qed
qed

lemma remove_run_files_none_left:
  assumes "remove_run_files key (os_listdir w CWD) w = (Inr u, w')"
    and "f \<in> set (os_listdir w' CWD)"
  shows "\<not> startswith f (''processed_'' @ key) \<and> \<not> startswith f (''combined_'' @ key)"
proof -
  from remove_run_files_ok [OF assms(1)] assms(2)
  obtain k where "(f, k) \<in> set (filter (\<lambda>(n, k). \<not> (n \<in> set (os_listdir w CWD) \<and>
       (startswith n (''processed_'' @ key) \<or> startswith n (''combined_'' @ key)))) (dirs w CWD))"
    by (auto simp: os_listdir_def)
  then show ?thesis by (force simp: os_listdir_def)
qed

lemma dir_names_distinct:
  "CLIP_DIR \<noteq> FRAME_DIR" "CLIP_DIR \<noteq> GROUND_TRUTH" "FRAME_DIR \<noteq> GROUND_TRUTH"
  "CLIP_DIR \<noteq> CWD" "FRAME_DIR \<noteq> CWD" "GROUND_TRUTH \<noteq> CWD"
  "ORIGINAL_DIR \<noteq> CWD" "ORIGINAL_DIR \<noteq> CLIP_DIR" "ORIGINAL_DIR \<noteq> FRAME_DIR"
  "ORIGINAL_DIR \<noteq> GROUND_TRUTH"
  by (simp_all add: CLIP_DIR_def FRAME_DIR_def GROUND_TRUTH_def CWD_def ORIGINAL_DIR_def)

lemma clean_dirs_post:
  assumes "clean_dirs key w = (Inr u, w')"
  shows "dirs w' CLIP_DIR = []" "dirs w' FRAME_DIR = []" "dirs w' GROUND_TRUTH = []"
    "\<forall>f \<in> set (os_listdir w' CWD).
        \<not> startswith f (''processed_'' @ key) \<and> \<not> startswith f (''combined_'' @ key)"
proof -
  from assms obtain w1 where s: "sweep_dirs [CLIP_DIR, FRAME_DIR, GROUND_TRUTH] w = (Inr (), w1)"
    and r: "remove_run_files key (os_listdir w1 CWD) w1 = (Inr u, w')"
    by (auto simp: clean_dirs_def split: prod.splits sum.splits)
  from sweep_dirs_empty [OF s] have e: "dirs w1 CLIP_DIR = []" "dirs w1 FRAME_DIR = []"
    "dirs w1 GROUND_TRUTH = []" by simp_all
  have sub: "set (dirs w' d) \<subseteq> set (dirs w1 d)" for d
    using remove_run_files_only_removed [OF r] by (simp add: only_removed_def)
  show "dirs w' CLIP_DIR = []" using sub [of CLIP_DIR] e by simp
  show "dirs w' FRAME_DIR = []" using sub [of FRAME_DIR] e by simp
  show "dirs w' GROUND_TRUTH = []" using sub [of GROUND_TRUTH] e by simp
  show "\<forall>f \<in> set (os_listdir w' CWD).
        \<not> startswith f (''processed_'' @ key) \<and> \<not> startswith f (''combined_'' @ key)"
    using remove_run_files_none_left [OF r] by blast
qed

subsection \<open>When the sweep completes\<close>

lemma map_of_filter_other:
  "f' \<noteq> f \<Longrightarrow> map_of (filter (\<lambda>(n, k). n \<noteq> f) es) f' = map_of es f'"
  by (induction es) auto

lemma remove_files_completes:
  "distinct fs \<Longrightarrow> \<forall>f \<in> set fs. map_of (dirs w d) f = Some Deletable
     \<Longrightarrow> \<exists>w'. remove_files d fs w = (Inr (), w')"
proof (induction fs arbitrary: w)
  case Nil
  then show ?case by simp
next
  case (Cons f fs)
  then have "map_of (dirs w d) f = Some Deletable" by simp
  then obtain w1 where r: "os_remove (d @ ''/'' @ f) d f w = (Inr (), w1)"
    using os_remove_deletable by blast
  have w1d: "dirs w1 d = filter (\<lambda>(n, k). n \<noteq> f) (dirs w d)"
    by (simp add: os_remove_ok [OF r])
  have "\<forall>f' \<in> set fs. map_of (dirs w1 d) f' = Some Deletable"
  proof
    fix f' assume m: "f' \<in> set fs"
    with Cons.prems(1) have "f' \<noteq> f" by auto
    with m Cons.prems(2) show "map_of (dirs w1 d) f' = Some Deletable"
      by (simp add: w1d map_of_filter_other)
  qed
  moreover have "distinct fs" using Cons.prems(1) by simp
  ultimately obtain w' where "remove_files d fs w1 = (Inr (), w')"
    using Cons.IH by blast
  with r show ?case by simp
qed

lemma remove_run_files_completes:
  "distinct fs
     \<Longrightarrow> \<forall>f \<in> set fs. startswith f (''processed_'' @ key) \<or> startswith f (''combined_'' @ key)
            \<longrightarrow> map_of (dirs w CWD) f = Some Deletable
     \<Longrightarrow> \<exists>w'. remove_run_files key fs w = (Inr (), w')"
proof (induction fs arbitrary: w)
  case Nil
  then show ?case by simp
next
  case (Cons f fs)
  have dist: "distinct fs" using Cons.prems(1) by simp
  show ?case
  proof (cases "startswith f (''processed_'' @ key) \<or> startswith f (''combined_'' @ key)")
    case False
    have "\<forall>f \<in> set fs. startswith f (''processed_'' @ key) \<or> startswith f (''combined_'' @ key)
            \<longrightarrow> map_of (dirs w CWD) f = Some Deletable"
      using Cons.prems(2) by simp
    from Cons.IH [OF dist this] False show ?thesis by simp
  next
    case True
    with Cons.prems(2) have "map_of (dirs w CWD) f = Some Deletable" by auto
    then obtain w1 where r: "os_remove f CWD f w = (Inr (), w1)"
      using os_remove_deletable by blast
    have w1d: "dirs w1 CWD = filter (\<lambda>(n, k). n \<noteq> f) (dirs w CWD)"
      by (simp add: os_remove_ok [OF r])
    have "\<forall>f' \<in> set fs. startswith f' (''processed_'' @ key) \<or> startswith f' (''combined_'' @ key)
            \<longrightarrow> map_of (dirs w1 CWD) f' = Some Deletable"
    proof (intro ballI impI)
      fix f' assume m: "f' \<in> set fs"
        and s: "startswith f' (''processed_'' @ key) \<or> startswith f' (''combined_'' @ key)"
      from m Cons.prems(1) have "f' \<noteq> f" by auto
      from m s Cons.prems(2) have "map_of (dirs w CWD) f' = Some Deletable" by auto
      with \<open>f' \<noteq> f\<close> show "map_of (dirs w1 CWD) f' = Some Deletable"
        by (simp add: w1d map_of_filter_other)
    qed
    from Cons.IH [OF dist this] obtain w' where "remove_run_files key fs w1 = (Inr (), w')"
      by blast
    with r True show ?thesis by simp
  qed
qed

lemma all_deletable_map_of:
  assumes "distinct (map fst es)" and "\<forall>(n, k) \<in> set es. P n \<longrightarrow> k = Deletable"
  shows "\<forall>f \<in> set (map fst es). P f \<longrightarrow> map_of es f = Some Deletable"
proof (intro ballI impI)
  fix f assume "f \<in> set (map fst es)" and p: "P f"
  then obtain k where m: "(f, k) \<in> set es" by auto
  with assms(2) p have "k = Deletable" by auto
  with m assms(1) show "map_of es f = Some Deletable" by simp
qed

lemma sweep_dirs_other:
  "sweep_dirs ds w = (Inr u, w') \<Longrightarrow> d' \<notin> set ds \<Longrightarrow> dirs w' d' = dirs w d'"
proof (induction ds arbitrary: w)
  case Nil
  then show ?case by simp
next
  case (Cons d ds)
  from Cons.prems obtain w1 where r: "remove_files d (os_listdir w d) w = (Inr (), w1)"
    and rest: "sweep_dirs ds w1 = (Inr u, w')"
    by (auto split: prod.splits sum.splits)
  from Cons.prems(2) have "d' \<noteq> d" "d' \<notin> set ds" by auto
  with remove_files_listing_empty [OF r] Cons.IH [OF rest] show ?case by simp
qed

lemma sweep_dirs_completes:
  "distinct ds
     \<Longrightarrow> \<forall>d \<in> set ds. distinct (map fst (dirs w d)) \<and> (\<forall>(n, k) \<in> set (dirs w d). k = Deletable)
     \<Longrightarrow> \<exists>w'. sweep_dirs ds w = (Inr (), w')"
proof (induction ds arbitrary: w)
  case Nil
  then show ?case by simp
next
  case (Cons d ds)
  have dd: "distinct (map fst (dirs w d))" and del: "\<forall>(n, k) \<in> set (dirs w d). True \<longrightarrow> k = Deletable"
    using Cons.prems(2) by auto
  have "\<forall>f \<in> set (os_listdir w d). map_of (dirs w d) f = Some Deletable"
    using all_deletable_map_of [OF dd del] by (simp add: os_listdir_def)
  moreover have "distinct (os_listdir w d)" using dd by (simp add: os_listdir_def)
  ultimately obtain w1 where r: "remove_files d (os_listdir w d) w = (Inr (), w1)"
    using remove_files_completes by blast
  have same: "dirs w1 d' = dirs w d'" if "d' \<in> set ds" for d'
    using remove_files_listing_empty [OF r] that Cons.prems(1) by auto
  have "\<forall>d' \<in> set ds. distinct (map fst (dirs w1 d')) \<and> (\<forall>(n, k) \<in> set (dirs w1 d'). k = Deletable)"
    using Cons.prems(2) same by simp
  moreover have "distinct ds" using Cons.prems(1) by simp
  ultimately obtain w' where "sweep_dirs ds w1 = (Inr (), w')" using Cons.IH by blast
  with r show ?case by simp
qed

lemma clean_dirs_completes:
  assumes "sweepable key w"
  shows "\<exists>w'. clean_dirs key w = (Inr (), w')"
proof -
  have "distinct [CLIP_DIR, FRAME_DIR, GROUND_TRUTH]" by (simp add: dir_names_distinct)
  moreover have "\<forall>d \<in> set [CLIP_DIR, FRAME_DIR, GROUND_TRUTH].
      distinct (map fst (dirs w d)) \<and> (\<forall>(n, k) \<in> set (dirs w d). k = Deletable)"
    using assms by (simp add: sweepable_def)
  ultimately obtain w1 where s: "sweep_dirs [CLIP_DIR, FRAME_DIR, GROUND_TRUTH] w = (Inr (), w1)"
    using sweep_dirs_completes by blast
  have cwd: "dirs w1 CWD = dirs w CWD"
    using sweep_dirs_other [OF s, of CWD] dir_names_distinct by auto
  have dd: "distinct (map fst (dirs w1 CWD))" using assms by (simp add: cwd sweepable_def)
  have del: "\<forall>(n, k) \<in> set (dirs w1 CWD).
      startswith n (''processed_'' @ key) \<or> startswith n (''combined_'' @ key) \<longrightarrow> k = Deletable"
    using assms by (simp add: cwd sweepable_def)
  have "\<forall>f \<in> set (os_listdir w1 CWD).
      startswith f (''processed_'' @ key) \<or> startswith f (''combined_'' @ key)
        \<longrightarrow> map_of (dirs w1 CWD) f = Some Deletable"
    using all_deletable_map_of [OF dd del] by (simp add: os_listdir_def)
  moreover have "distinct (os_listdir w1 CWD)" using dd by (simp add: os_listdir_def)
  ultimately obtain w' where "remove_run_files key (os_listdir w1 CWD) w1 = (Inr (), w')"
    using remove_run_files_completes by blast
  with s show ?thesis by (simp add: clean_dirs_def)
qed

subsection \<open>Writing\<close>

lemma write_file_simps [simp]:
  "op_log (write_file d f w) = op_log w @ [Write d f]"
  "uploaded (write_file d f w) = uploaded w"
  "d' \<noteq> d \<Longrightarrow> dirs (write_file d f w) d' = dirs w d'"
  "fst ` set (dirs (write_file d f w) d) = insert f (fst ` set (dirs w d))"
  by (auto simp: write_file_def)

lemma write_files_simps [simp]:
  "op_log (write_files d fs w) = op_log w @ map (Write d) fs"
  "uploaded (write_files d fs w) = uploaded w"
  "d' \<noteq> d \<Longrightarrow> dirs (write_files d fs w) d' = dirs w d'"
  "fst ` set (dirs (write_files d fs w) d) = set fs \<union> fst ` set (dirs w d)"
proof -
  show "op_log (write_files d fs w) = op_log w @ map (Write d) fs"
    unfolding write_files_def by (induction fs arbitrary: w) simp_all
  show "uploaded (write_files d fs w) = uploaded w"
    unfolding write_files_def by (induction fs arbitrary: w) simp_all
  show "d' \<noteq> d \<Longrightarrow> dirs (write_files d fs w) d' = dirs w d'"
    unfolding write_files_def by (induction fs arbitrary: w) simp_all
  show "fst ` set (dirs (write_files d fs w) d) = set fs \<union> fst ` set (dirs w d)"
    unfolding write_files_def by (induction fs arbitrary: w) auto
qed

lemma write_files_Nil [simp]: "write_files d [] w = w"
  by (simp add: write_files_def)

lemma upload_simps [simp]:
  "op_log (upload f w) = op_log w @ [Upload f]"
  "uploaded (upload f w) = uploaded w @ [f]"
  "dirs (upload f w) = dirs w"
  by (simp_all add: upload_def)

lemma no_removes_since_refl: "no_removes_since w w"
  by (simp add: no_removes_since_def)

lemma no_removes_since_write_file:
  "no_removes_since w0 w \<Longrightarrow> no_removes_since w0 (write_file d f w)"
  unfolding no_removes_since_def
proof -
  assume "\<exists>rest. op_log w = op_log w0 @ rest \<and> (\<forall>op \<in> set rest. \<not> is_remove op)"
  then obtain rest where "op_log w = op_log w0 @ rest" "\<forall>op \<in> set rest. \<not> is_remove op" by blast
  then have "op_log (write_file d f w) = op_log w0 @ (rest @ [Write d f])
      \<and> (\<forall>op \<in> set (rest @ [Write d f]). \<not> is_remove op)" by simp
  then show "\<exists>rest. op_log (write_file d f w) = op_log w0 @ rest \<and> (\<forall>op \<in> set rest. \<not> is_remove op)"
    by blast
qed

lemma no_removes_since_write_files:
  "no_removes_since w0 w \<Longrightarrow> no_removes_since w0 (write_files d fs w)"
  unfolding write_files_def
  by (induction fs arbitrary: w) (simp_all add: no_removes_since_write_file)

lemma no_removes_since_upload:
  "no_removes_since w0 w \<Longrightarrow> no_removes_since w0 (upload f w)"
  unfolding no_removes_since_def
proof -
  assume "\<exists>rest. op_log w = op_log w0 @ rest \<and> (\<forall>op \<in> set rest. \<not> is_remove op)"
  then obtain rest where "op_log w = op_log w0 @ rest" "\<forall>op \<in> set rest. \<not> is_remove op" by blast
  then have "op_log (upload f w) = op_log w0 @ (rest @ [Upload f])
      \<and> (\<forall>op \<in> set (rest @ [Upload f]). \<not> is_remove op)" by simp
  then show "\<exists>rest. op_log (upload f w) = op_log w0 @ rest \<and> (\<forall>op \<in> set rest. \<not> is_remove op)"
    by blast
qed

lemma no_removes_since_stitch_clips:
  "no_removes_since w0 w \<Longrightarrow> no_removes_since w0 (stitch_clips env clip_files out w)"
  by (simp add: stitch_clips_def no_removes_since_write_file no_removes_since_write_files)

lemmas no_removes_since_intros =
  no_removes_since_refl no_removes_since_write_file no_removes_since_write_files
  no_removes_since_upload no_removes_since_stitch_clips

subsection \<open>The run after the sweep\<close>

lemma process_video_cleanup_fails:
  "clean_dirs (run_key env) w = (Inl e, w1) \<Longrightarrow> process_video env w = (Inl e, w1)"
  by (simp add: process_video_def)

lemma process_video_no_removes:
  assumes "clean_dirs (run_key env) w = (r, w1)"
  shows "no_removes_since w1 (snd (process_video env w))"
proof (cases r)
  case (Inl e)
  with assms show ?thesis
    by (simp add: process_video_cleanup_fails no_removes_since_refl)
next
  case (Inr u)
  with assms show ?thesis
    by (simp add: process_video_def Let_def no_removes_since_intros)
qed

lemma frame_loop_same_length:
  "length tms = length imgs
     \<Longrightarrow> length (fst (frame_loop fps ms idx has_prev (tms, imgs)))
         = length (snd (frame_loop fps ms idx has_prev (tms, imgs)))"
  by (induction ms arbitrary: idx has_prev tms imgs) (simp_all add: Let_def)

lemma find_abnormal_segments_Nil: "snd (find_abnormal_segments ts g) = [] \<longleftrightarrow> ts = []"
  by (simp add: find_abnormal_segments_def Let_def split: prod.splits)

lemma detected_segments_Nil:
  assumes "detected_segments env = []"
  shows "snd (frame_loop (effective_fps env) (flow_means env) 0 False ([], [])) = []"
proof -
  from assms have "fst (frame_loop (effective_fps env) (flow_means env) 0 False ([], [])) = []"
    by (simp add: detected_segments_def find_abnormal_segments_Nil)
  then have "length (snd (frame_loop (effective_fps env) (flow_means env) 0 False ([], []))) = 0"
    using frame_loop_same_length [of "[]" "[]" "effective_fps env" "flow_means env" 0 False]
    by simp
  then show ?thesis by simp
qed

lemma clip_jobs_nth:
  "j < length segments \<Longrightarrow>
     clip_jobs margin vlen i segments ! j =
       \<lparr>outfn = ''clip_'' @ zfill 2 (str_nat (i + j)) @ EXT,
        start_s = max 0 (fst (segments ! j) - margin),
        end_s = min vlen (snd (segments ! j) + margin),
        segment = segments ! j\<rparr>"
proof (induction segments arbitrary: i j)
  case Nil
  then show ?case by simp
next
  case (Cons seg segments)
  obtain s e where seg: "seg = (s, e)" by (cases seg)
  show ?case
  proof (cases j)
    case 0
    then show ?thesis by (simp add: seg Let_def)
  next
    case (Suc j')
    with Cons.prems have "j' < length segments" by simp
    from Cons.IH [OF this, of "i + 1"] Suc show ?thesis by (simp add: seg Let_def)
  qed
qed

lemma length_clip_jobs: "length (clip_jobs margin vlen i segments) = length segments"
  by (induction segments arbitrary: i) (auto simp: Let_def)

subsection \<open>The sweep as one sequence of deletes\<close>








subsection \<open>Margins\<close>

text \<open>
  Claim C5.  For a segment \<open>(s, e)\<close> with \<open>0 \<le> s \<le> e \<le> L\<close>, a margin \<open>m \<ge> 0\<close> and
  video length \<open>L\<close>, the bounds passed to the clip extraction are
  \<open>(max 0 (s - m), min L (e + m))\<close>, and they satisfy \<open>0 \<le> start \<le> end \<le> L\<close>.
  Timestamps are taken as real numbers here: the arithmetic is exact.
\<close>

theorem clip_jobs_margins:
  assumes "j < length segments" and "segments ! j = (s, e)"
    and "0 \<le> s" and "s \<le> e" and "e \<le> L" and "0 \<le> m"
  shows "start_s (clip_jobs m L i segments ! j) = max 0 (s - m)
    \<and> end_s (clip_jobs m L i segments ! j) = min L (e + m)
    \<and> 0 \<le> start_s (clip_jobs m L i segments ! j)
    \<and> start_s (clip_jobs m L i segments ! j) \<le> end_s (clip_jobs m L i segments ! j)
    \<and> end_s (clip_jobs m L i segments ! j) \<le> L"
proof -
  have st: "start_s (clip_jobs m L i segments ! j) = max 0 (s - m)"
    and en: "end_s (clip_jobs m L i segments ! j) = min L (e + m)"
    using assms(1,2) by (simp_all add: clip_jobs_nth)
  have "0 \<le> max 0 (s - m)" by simp
  moreover have "max 0 (s - m) \<le> min L (e + m)" using assms(3-6) by simp
  moreover have "min L (e + m) \<le> L" by simp
  ultimately show ?thesis unfolding st en by simp
qed

theorem clip_jobs_margins_witness:
  "start_s (clip_jobs 5.0 12.0 1 [(1.5, 2.0), (9.5, 9.5)] ! 0) = 0
   \<and> end_s (clip_jobs 5.0 12.0 1 [(1.5, 2.0), (9.5, 9.5)] ! 0) = 7.0
   \<and> start_s (clip_jobs 5.0 12.0 1 [(1.5, 2.0), (9.5, 9.5)] ! 1) = 4.5
   \<and> end_s (clip_jobs 5.0 12.0 1 [(1.5, 2.0), (9.5, 9.5)] ! 1) = 12.0"
proof -
  let ?segs = "[(1.5, 2.0), (9.5, 9.5)] :: (real \<times> real) list"
  have a: "0 < length ?segs" "?segs ! 0 = (1.5, 2.0)" "(0 :: real) \<le> 1.5" "(1.5 :: real) \<le> 2.0"
    "(2.0 :: real) \<le> 12.0" "(0 :: real) \<le> 5.0" by simp_all
  have b: "1 < length ?segs" "?segs ! 1 = (9.5, 9.5)" "(0 :: real) \<le> 9.5" "(9.5 :: real) \<le> 9.5"
    "(9.5 :: real) \<le> 12.0" by simp_all
  from clip_jobs_margins [OF a, of 1] clip_jobs_margins [OF b a(6), of 1]
  show ?thesis by simp
qed

subsection \<open>The sweep\<close>

text \<open>
  Claim C6.  After \<open>clean_dirs key\<close> has completed, the clip, frame and ground-truth
  directories have no entry, whatever they held and whatever the key, and no entry of the
  working directory has a name starting with \<^verbatim>\<open>processed_{key}\<close> or
  \<^verbatim>\<open>combined_{key}\<close>.  The sweep does complete when every entry it has to delete is
  deletable.  In the log of \<open>process_video\<close> the deletes of the sweep come first: no
  delete follows a write or an upload of the run.
\<close>

theorem clean_dirs_sweeps:
  "(clean_dirs key w = (Inr (), w') \<longrightarrow>
       dirs w' CLIP_DIR = [] \<and> dirs w' FRAME_DIR = [] \<and> dirs w' GROUND_TRUTH = []
       \<and> (\<forall>f \<in> set (os_listdir w' CWD).
             \<not> startswith f (''processed_'' @ key) \<and> \<not> startswith f (''combined_'' @ key)))
   \<and> (sweepable key w \<longrightarrow> (\<exists>w1. clean_dirs key w = (Inr (), w1)))
   \<and> (\<exists>removes rest.
         op_log (snd (clean_dirs (run_key env) w)) = op_log w @ removes
         \<and> op_log (snd (process_video env w)) = op_log w @ removes @ rest
         \<and> (\<forall>op \<in> set removes. is_remove op) \<and> (\<forall>op \<in> set rest. \<not> is_remove op))"
proof (intro conjI impI)
  assume c: "clean_dirs key w = (Inr (), w')"
  show "dirs w' CLIP_DIR = []" by (rule clean_dirs_post(1) [OF c])
  show "dirs w' FRAME_DIR = []" by (rule clean_dirs_post(2) [OF c])
  show "dirs w' GROUND_TRUTH = []" by (rule clean_dirs_post(3) [OF c])
  show "\<forall>f \<in> set (os_listdir w' CWD).
          \<not> startswith f (''processed_'' @ key) \<and> \<not> startswith f (''combined_'' @ key)"
    by (rule clean_dirs_post(4) [OF c])
next
  assume "sweepable key w"
  then show "\<exists>w1. clean_dirs key w = (Inr (), w1)" by (rule clean_dirs_completes)
next
  obtain r w1 where c: "clean_dirs (run_key env) w = (r, w1)"
    by (cases "clean_dirs (run_key env) w")
  from clean_dirs_only_removed [OF c] obtain removes where
    rm: "op_log w1 = op_log w @ removes" "\<forall>op \<in> set removes. is_remove op"
    by (auto simp: only_removed_def)
  from process_video_no_removes [OF c] obtain rest where
    rs: "op_log (snd (process_video env w)) = op_log w1 @ rest" "\<forall>op \<in> set rest. \<not> is_remove op"
    by (auto simp: no_removes_since_def)
  have "op_log (snd (clean_dirs (run_key env) w)) = op_log w @ removes" using c rm by simp
  moreover have "op_log (snd (process_video env w)) = op_log w @ removes @ rest" using rs rm by simp
  ultimately show "\<exists>removes rest.
         op_log (snd (clean_dirs (run_key env) w)) = op_log w @ removes
         \<and> op_log (snd (process_video env w)) = op_log w @ removes @ rest
         \<and> (\<forall>op \<in> set removes. is_remove op) \<and> (\<forall>op \<in> set rest. \<not> is_remove op)"
    using rm(2) rs(2) by blast
qed

theorem clean_dirs_sweeps_witness:
  "sweepable ''D001'' sample_world
   \<and> fst (clean_dirs ''D001'' sample_world) = Inr ()
   \<and> dirs (snd (clean_dirs ''D001'' sample_world)) CLIP_DIR = []
   \<and> dirs (snd (clean_dirs ''D001'' sample_world)) FRAME_DIR = []
   \<and> dirs (snd (clean_dirs ''D001'' sample_world)) GROUND_TRUTH = []
   \<and> os_listdir (snd (clean_dirs ''D001'' sample_world)) CWD = [''abnormal_clips'', ''processed_D002.mp4'']"
proof -
  let ?w' = "snd (clean_dirs ''D001'' sample_world)"
  have sw: "sweepable ''D001'' sample_world" by code_simp
  note inst = clean_dirs_sweeps [of "''D001''" sample_world ?w' sample_env]
  from inst sw obtain w1 where "clean_dirs ''D001'' sample_world = (Inr (), w1)" by blast
  then have c: "clean_dirs ''D001'' sample_world = (Inr (), ?w')" by simp
  then have ok: "fst (clean_dirs ''D001'' sample_world) = Inr ()" by (metis fst_conv)
  from inst c have "dirs ?w' CLIP_DIR = []" "dirs ?w' FRAME_DIR = []" "dirs ?w' GROUND_TRUTH = []"
    by blast+
  moreover have "os_listdir ?w' CWD = [''abnormal_clips'', ''processed_D002.mp4'']" by code_simp
  ultimately show ?thesis using sw ok by blast
qed

subsection \<open>A delete that fails\<close>




subsection \<open>A run without segments\<close>

text \<open>
  Claim C8.  When the segmenter returns no segment, a run that answers has produced no
  clip, the stitching and the upload have not taken place, and the response's
  \<open>summary_file\<close> is the empty string: nothing has been sent to the summary service, no
  file \<^verbatim>\<open>combined_{key}.mp4\<close> exists in the working directory, and after the sweep the
  run has written the uploaded video, the ground-truth plot and the processed video,
  nothing else.
\<close>

theorem no_segments_no_summary:
  assumes "process_video env w = (Inr resp, w')"
    and "detected_segments env = []"
  shows "summary_file resp = '''' \<and> clips resp = []
    \<and> uploaded w' = uploaded w
    \<and> (''combined_'' @ run_key env @ EXT) \<notin> set (os_listdir w' CWD)
    \<and> (\<exists>w1. clean_dirs (run_key env) w = (Inr (), w1)
          \<and> op_log w' = op_log w1 @ [Write ORIGINAL_DIR (filename env),
                                Write GROUND_TRUTH (run_key env @ ''_groundtruth.png''),
                                Write CWD (''processed_'' @ run_key env @ EXT)])"
proof -
  obtain r w1 where c0: "clean_dirs (run_key env) w = (r, w1)"
    by (cases "clean_dirs (run_key env) w")
  have "\<exists>u. r = Inr u"
  proof (cases r)
    case (Inl e)
    with c0 assms(1) show ?thesis by (simp add: process_video_cleanup_fails)
  qed simp
  with c0 have c: "clean_dirs (run_key env) w = (Inr (), w1)" by auto
  have gt: "gt_has_key env" and cap: "cap_opened env"
    using assms(1) c by (auto simp: process_video_def Let_def split: if_splits)
  define w4 where "w4 = write_file CWD (''processed_'' @ run_key env @ EXT)
      (write_file GROUND_TRUTH (run_key env @ ''_groundtruth.png'')
        (write_file ORIGINAL_DIR (filename env) w1))"
  have imgs: "snd (frame_loop (effective_fps env) (flow_means env) 0 False ([], [])) = []"
    using assms(2) by (rule detected_segments_Nil)
  have run: "process_video env w =
      (Inr \<lparr>original_video = filename env, clips = [], summary_file = '''',
            ground_truth_files = [run_key env @ ''_groundtruth.png'']\<rparr>, w4)"
    using c gt cap assms(2) imgs by (simp add: process_video_def Let_def w4_def)
  with assms(1) have resp: "resp = \<lparr>original_video = filename env, clips = [], summary_file = '''',
            ground_truth_files = [run_key env @ ''_groundtruth.png'']\<rparr>" and w': "w' = w4"
    by simp_all
  have up: "uploaded w' = uploaded w"
    using clean_dirs_only_removed [OF c] by (simp add: w' w4_def only_removed_def)
  have lg: "op_log w' = op_log w1 @ [Write ORIGINAL_DIR (filename env),
                                Write GROUND_TRUTH (run_key env @ ''_groundtruth.png''),
                                Write CWD (''processed_'' @ run_key env @ EXT)]"
    by (simp add: w' w4_def)
  have "startswith (''combined_'' @ run_key env @ EXT) (''combined_'' @ run_key env)"
    by (simp add: startswith_def)
  then have "(''combined_'' @ run_key env @ EXT) \<notin> set (os_listdir w1 CWD)"
    using clean_dirs_post(4) [OF c] by blast
  moreover have "fst ` set (dirs w4 CWD)
      = insert (''processed_'' @ run_key env @ EXT) (fst ` set (dirs w1 CWD))"
    by (simp add: w4_def dir_names_distinct dir_names_distinct [symmetric])
  ultimately have nc: "(''combined_'' @ run_key env @ EXT) \<notin> set (os_listdir w' CWD)"
    by (simp add: os_listdir_def w')
  from resp up nc c lg show ?thesis by simp
qed

theorem no_segments_no_summary_witness:
  "detected_segments quiet_env = []
   \<and> fst (process_video quiet_env sample_world)
       = Inr \<lparr>original_video = ''D001.avi'', clips = [], summary_file = '''',
              ground_truth_files = [''D001_groundtruth.png'']\<rparr>
   \<and> uploaded (snd (process_video quiet_env sample_world)) = []
   \<and> ''combined_D001.mp4'' \<notin> set (os_listdir (snd (process_video quiet_env sample_world)) CWD)"
proof -
  let ?resp = "\<lparr>original_video = ''D001.avi'', clips = [], summary_file = '''',
              ground_truth_files = [''D001_groundtruth.png'']\<rparr>"
  let ?w' = "snd (process_video quiet_env sample_world)"
  have k: "''combined_'' @ run_key quiet_env @ EXT = ''combined_D001.mp4''"
    by (simp add: quiet_env_def sample_env_def EXT_def)
  have u: "uploaded sample_world = []" by (simp add: sample_world_def)
  have d: "detected_segments quiet_env = []" by code_simp
  have f: "fst (process_video quiet_env sample_world) = Inr ?resp" by code_simp
  then have p: "process_video quiet_env sample_world = (Inr ?resp, ?w')"
    by (simp add: prod_eq_iff)
  from no_segments_no_summary [OF p d] d f show ?thesis
    unfolding k u by simp
qed

end
